theory Spec2Isabelle
  imports Main
begin

section \<open>Strings and numbers of the platform\<close>

text \<open>
  A JavaScript string is a sequence of UTF-16 code units. The regular expressions of the
  source carry no \<^verbatim>\<open>u\<close> flag, so they read the string one code unit at a time;
  a code unit is modelled by its number (below 65536).
\<close>

type_synonym jschar = nat
type_synonym jsstring = "jschar list"

definition js :: "string \<Rightarrow> jsstring" where
  "js s = map of_char s"

text \<open>
  A Number holding an integer. Integers up to \<open>2^53\<close> are held exactly; a longer digit
  string is rounded by \<^verbatim>\<open>parseInt\<close> to a double (possibly Infinity), which
  \<open>Rounded n\<close> stands for without fixing its value.
\<close>

datatype number = NaN | Num nat | Rounded nat

definition isNaN :: "number \<Rightarrow> bool" where
  "isNaN x = (x = NaN)"

subsection \<open>Character classes\<close>

definition is_digit :: "jschar \<Rightarrow> bool" where
  "is_digit c = (48 \<le> c \<and> c \<le> 57)"

definition is_lower_hex :: "jschar \<Rightarrow> bool" where
  "is_lower_hex c = (is_digit c \<or> (97 \<le> c \<and> c \<le> 102))"

definition is_letter :: "jschar \<Rightarrow> bool" where
  "is_letter c = ((97 \<le> c \<and> c \<le> 122) \<or> (65 \<le> c \<and> c \<le> 90))"

definition is_alnum :: "jschar \<Rightarrow> bool" where
  "is_alnum c = (is_letter c \<or> is_digit c)"

text \<open>The line terminators: LF, CR, U+2028, U+2029. The dot matches everything else.\<close>

definition is_line_terminator :: "jschar \<Rightarrow> bool" where
  "is_line_terminator c = (c = 10 \<or> c = 13 \<or> c = 8232 \<or> c = 8233)"

definition is_dot :: "jschar \<Rightarrow> bool" where
  "is_dot c = (\<not> is_line_terminator c)"

text \<open>
  The class \<^verbatim>\<open>\s\<close>: TAB, VT, FF, the line terminators, the space, the no-break
  space, the byte order mark and the other Unicode space separators.
\<close>

definition is_space :: "jschar \<Rightarrow> bool" where
  "is_space c = (c = 9 \<or> c = 11 \<or> c = 12 \<or> is_line_terminator c \<or> c = 32 \<or> c = 160
     \<or> c = 5760 \<or> (8192 \<le> c \<and> c \<le> 8202) \<or> c = 8239 \<or> c = 8287 \<or> c = 12288
     \<or> c = 65279)"

definition is_nonspace :: "jschar \<Rightarrow> bool" where
  "is_nonspace c = (\<not> is_space c)"

definition is_char :: "jschar \<Rightarrow> jschar \<Rightarrow> bool" where
  "is_char k c = (c = k)"

definition is_nonslash :: "jschar \<Rightarrow> bool" where
  "is_nonslash c = (c \<noteq> 47)"

section \<open>Regular expressions, matched by backtracking\<close>

text \<open>
  The patterns of the source need character classes, sequencing, capture groups and
  quantifiers (greedy or lazy, with a least and an optional greatest count).
  \<open>Rep greedy least most r\<close> is \<^verbatim>\<open>r{least,most}\<close>; \<open>most = None\<close> is no bound.
\<close>

datatype regex =
    Class "jschar \<Rightarrow> bool"
  | Seq regex regex
  | Rep bool nat "nat option" regex
  | Group nat regex

abbreviation Star :: "regex \<Rightarrow> regex" where
  "Star r \<equiv> Rep True 0 None r"

abbreviation LazyStar :: "regex \<Rightarrow> regex" where
  "LazyStar r \<equiv> Rep False 0 None r"

abbreviation Plus :: "regex \<Rightarrow> regex" where
  "Plus r \<equiv> Rep True 1 None r"

abbreviation Opt :: "regex \<Rightarrow> regex" where
  "Opt r \<equiv> Rep True 0 (Some 1) r"

abbreviation Between :: "nat \<Rightarrow> nat \<Rightarrow> regex \<Rightarrow> regex" where
  "Between lo hi r \<equiv> Rep True lo (Some hi) r"

text \<open>
  A matcher state is the input still to be read and the captures made so far. The
  matcher returns every state in which the pattern can end, in the order in which a
  backtracking engine tries them: the first element is the engine's choice, the next
  one is what it falls back to when the continuation fails.
\<close>

type_synonym captures = "nat \<Rightarrow> jsstring option"
type_synonym mstate = "jsstring \<times> captures"

fun groups :: "regex \<Rightarrow> nat set" where
  "groups (Class C) = {}"
| "groups (Seq a b) = groups a \<union> groups b"
| "groups (Rep g mn mx r) = groups r"
| "groups (Group i r) = insert i (groups r)"

fun rsize :: "regex \<Rightarrow> nat" where
  "rsize (Class C) = 0"
| "rsize (Seq a b) = Suc (rsize a + rsize b)"
| "rsize (Rep g mn mx r) = Suc (mn + rsize r)"
| "rsize (Group i r) = Suc (rsize r)"

definition clear :: "nat set \<Rightarrow> mstate \<Rightarrow> mstate" where
  "clear G st = (fst st, (\<lambda>i. if i \<in> G then None else snd st i))"

definition each :: "'a list \<Rightarrow> ('a \<Rightarrow> 'b list) \<Rightarrow> 'b list" where
  "each xs f = concat (map f xs)"

text \<open>
  The quantifier follows the language definition's RepeatMatcher: the captures of the
  groups inside are reset at each round, a round that reads nothing is refused once the
  least count is reached, a greedy quantifier tries one more round before stopping and a
  lazy one stops before trying one more round.
\<close>

function m :: "regex \<Rightarrow> mstate \<Rightarrow> mstate list" where
  "m (Class C) st = (case fst st of [] \<Rightarrow> [] | c # cs \<Rightarrow> if C c then [(cs, snd st)] else [])"
| "m (Seq a b) st = each (m a st) (\<lambda>st'. m b st')"
| "m (Group i r) st =
     map (\<lambda>st'. (fst st', (snd st')(i := Some (take (length (fst st) - length (fst st')) (fst st)))))
       (m r st)"
| "m (Rep g mn mx r) st =
     (if mx = Some 0 then [st]
      else let more = each (m r (clear (groups r) st))
                 (\<lambda>st'. if mn = 0 \<and> length (fst st) \<le> length (fst st') then []
                        else m (Rep g (mn - 1) (map_option (\<lambda>k. k - 1) mx) r) st')
           in if 0 < mn then more else if g then more @ [st] else st # more)"
  by pat_completeness auto
termination
  by (relation "inv_image (less_than <*lex*> less_than) (\<lambda>(r, st). (rsize r, length (fst st)))")
     (auto simp: clear_def)

text \<open>
  Every pattern of the source is written \<^verbatim>\<open>/^...$/\<close> with no flag: the only start
  index is 0 and the match must end at the end of the input, so the engine's result is
  the first way through the pattern that has read the whole input. \<open>regexp_exec\<close> returns
  the captures of that match (\<open>None\<close> for \<^verbatim>\<open>null\<close>), and \<open>regexp_test\<close> whether
  there is one.
\<close>

definition regexp_exec :: "regex \<Rightarrow> jsstring \<Rightarrow> captures option" where
  "regexp_exec r s = map_option snd (find (\<lambda>st. fst st = []) (m r (s, \<lambda>_. None)))"

definition regexp_test :: "regex \<Rightarrow> jsstring \<Rightarrow> bool" where
  "regexp_test r s = (regexp_exec r s \<noteq> None)"

text \<open>What the pattern can leave unread of an input, in the engine's order.\<close>

definition rests :: "regex \<Rightarrow> jsstring \<Rightarrow> jsstring list" where
  "rests r s = map fst (m r (s, \<lambda>_. None))"

section \<open>The reference parser (src/services/parser.ts)\<close>

text \<open>
  The pattern of \<^verbatim>\<open>parseString\<close>:
  \<^verbatim>\<open>/^(?:([0-9]+)\s+)?(.*?)((?:\s-[a-zA-Z]+(?:=\S*)?)*)?$/\<close>
\<close>

definition flagToken :: regex where
  "flagToken = Seq (Class is_space) (Seq (Class (is_char 45)) (Seq (Plus (Class is_letter))
     (Opt (Seq (Class (is_char 61)) (Star (Class is_nonspace))))))"

definition quantityPrefix :: regex where
  "quantityPrefix = Opt (Seq (Group 1 (Plus (Class is_digit))) (Plus (Class is_space)))"

definition flagsPart :: regex where
  "flagsPart = Opt (Group 3 (Star flagToken))"

definition regexp :: regex where
  "regexp = Seq quantityPrefix (Seq (Group 2 (LazyStar (Class is_dot))) flagsPart)"

text \<open>
  \<^verbatim>\<open>parseInt\<close>, on what \<^verbatim>\<open>parseString\<close> hands it: \<^verbatim>\<open>undefined\<close> (read as the
  text "undefined", which has no digit) or capture 1, a run of decimal digits. The
  result is the value of the leading decimal digits and NaN when there is none; the
  sign, leading blanks and the hexadecimal prefix that \<^verbatim>\<open>parseInt\<close> also reads
  cannot occur in capture 1 and are left out.
\<close>

definition digits_value :: "jsstring \<Rightarrow> nat" where
  "digits_value ds = foldl (\<lambda>a c. 10 * a + (c - 48)) 0 ds"

definition parseInt :: "jsstring option \<Rightarrow> number" where
  "parseInt x = (case x of
       None \<Rightarrow> NaN
     | Some s \<Rightarrow>
         let ds = takeWhile is_digit s in
         if ds = [] then NaN
         else if digits_value ds \<le> 9007199254740992 then Num (digits_value ds)
         else Rounded (digits_value ds))"

text \<open>
  \<^verbatim>\<open>ParsedCard\<close> (its declaration in src/types is not part of the sources; the
  fields are the ones \<^verbatim>\<open>parseString\<close> fills). \<^verbatim>\<open>customFlags\<close> is a
  \<^verbatim>\<open>Map<string, string | undefined>\<close>: a key is absent, present with no value
  (\<open>Some None\<close>) or present with one.
\<close>

type_synonym flagmap = "jsstring \<rightharpoonup> jsstring option"

record ParsedCard =
  name :: jsstring
  quantity :: number
  language :: "jsstring option"
  customFlags :: flagmap

text \<open>\<^verbatim>\<open>Map.prototype.get\<close>: \<^verbatim>\<open>undefined\<close> for an absent key and for a key with no value.\<close>

definition map_get :: "flagmap \<Rightarrow> jsstring \<Rightarrow> jsstring option" where
  "map_get flags k = (case flags k of None \<Rightarrow> None | Some v \<Rightarrow> v)"

definition map_delete :: "flagmap \<Rightarrow> jsstring \<Rightarrow> flagmap" where
  "map_delete flags k = flags(k := None)"

text \<open>
  \<^verbatim>\<open>parseString\<close>, with \<^verbatim>\<open>parseFlags\<close> (src/services/parser.utils, not part of the
  sources) as the parameter \<open>pf\<close>. Capture 2 is not optional in the pattern, so it is
  defined in every match (lemma \<open>regexp_group2\<close> below) and the branch for an undefined
  capture 2 is never taken.
\<close>

definition parseString :: "(jsstring option \<Rightarrow> flagmap) \<Rightarrow> jsstring \<Rightarrow> ParsedCard option" where
  "parseString pf input = (case regexp_exec regexp input of
       None \<Rightarrow> None
     | Some match \<Rightarrow>
         let parsedQuantity = parseInt (match 1);
             quantity = (if isNaN parsedQuantity then Num 1 else parsedQuantity);
             flags = pf (match 3);
             language = map_get flags (js ''l'');
             flags = map_delete flags (js ''l'')
         in (case match 2 of
               None \<Rightarrow> None
             | Some text \<Rightarrow>
                 Some \<lparr>name = text, quantity = quantity, language = language,
                       customFlags = flags\<rparr>))"

subsection \<open>The parts of a line\<close>

text \<open>
  A line has a quantity prefix when it begins with decimal digits and the digits are
  followed by whitespace.
\<close>

definition quantity_prefix :: "jsstring \<Rightarrow> bool" where
  "quantity_prefix s = (takeWhile is_digit s \<noteq> [] \<and>
     (case dropWhile is_digit s of [] \<Rightarrow> False | c # cs \<Rightarrow> is_space c))"

text \<open>
  The pattern after the quantity prefix (the name and the flags), and what it takes for
  the flags, and for the name and the flags, to read a text to its end.
\<close>

definition tailPart :: regex where
  "tailPart = Seq (Group 2 (LazyStar (Class is_dot))) flagsPart"

definition star_ok :: "jsstring \<Rightarrow> bool" where
  "star_ok f = ([] \<in> set (rests (Star flagToken) f))"

definition tail_ok :: "jsstring \<Rightarrow> bool" where
  "tail_ok x = ([] \<in> set (rests tailPart x))"

text \<open>
  A flag token, as the pattern reads it: a whitespace character, a dash, the letters of
  the name and, optionally, \<^verbatim>\<open>=\<close> with a value that has no whitespace.
\<close>

type_synonym flag = "jschar \<times> jsstring \<times> jsstring option"

definition valid_flag :: "flag \<Rightarrow> bool" where
  "valid_flag t = (case t of (w, n, v) \<Rightarrow>
     is_space w \<and> n \<noteq> [] \<and> list_all is_letter n
     \<and> (case v of None \<Rightarrow> True | Some x \<Rightarrow> list_all is_nonspace x))"

definition flag_text :: "flag \<Rightarrow> jsstring" where
  "flag_text t = (case t of (w, n, v) \<Rightarrow>
     w # 45 # n @ (case v of None \<Rightarrow> [] | Some x \<Rightarrow> 61 # x))"

definition flag_segment :: "flag list \<Rightarrow> jsstring" where
  "flag_segment ts = concat (map flag_text ts)"

subsection \<open>The flag parser\<close>

text \<open>
  Modelled from the spec: \<^verbatim>\<open>parseFlags\<close> of src/services/parser.utils is missing from
  the sources. Section 4.1 of the specification: the segment is a sequence of tokens
  separated by whitespace; a token is a dash, one or more letters (the flag name) and
  optionally \<^verbatim>\<open>=\<close> with a value running to the next whitespace; a flag without
  \<^verbatim>\<open>=\<close> maps to an absent value, a repeated flag keeps its last value, a malformed
  token is left out, and an absent segment gives the empty mapping.
\<close>

fun flag_words :: "jsstring \<Rightarrow> jsstring \<Rightarrow> jsstring list" where
  "flag_words cur [] = (if cur = [] then [] else [cur])"
| "flag_words cur (c # cs) =
     (if is_space c then (if cur = [] then flag_words [] cs else cur # flag_words [] cs)
      else flag_words (cur @ [c]) cs)"

definition flag_token :: "jsstring \<Rightarrow> (jsstring \<times> jsstring option) option" where
  "flag_token w = (case w of
       [] \<Rightarrow> None
     | c # cs \<Rightarrow>
         if c = 45 \<and> takeWhile is_letter cs \<noteq> [] then
           (case dropWhile is_letter cs of
              [] \<Rightarrow> Some (takeWhile is_letter cs, None)
            | e # v \<Rightarrow> if e = 61 then Some (takeWhile is_letter cs, Some v) else None)
         else None)"

definition parseFlags :: "jsstring option \<Rightarrow> flagmap" where
  "parseFlags segment = (case segment of
       None \<Rightarrow> Map.empty
     | Some s \<Rightarrow>
         fold (\<lambda>w flags. case flag_token w of None \<Rightarrow> flags | Some (k, v) \<Rightarrow> flags(k \<mapsto> v))
           (flag_words [] s) Map.empty)"

section \<open>The resolution client (src/services/scryfall.ts)\<close>

subsection \<open>Building the request of getCard\<close>

definition SCRYFALL_API_URI :: jsstring where
  "SCRYFALL_API_URI = js ''https://api.scryfall.com''"

text \<open>\<^verbatim>\<open>/^[0-9a-f]{8}-[0-9a-f]{4}-[0-9a-f]{4}-[0-9a-f]{4}-[0-9a-f]{12}$/\<close>\<close>

definition uuidRegexp :: regex where
  "uuidRegexp =
     Seq (Between 8 8 (Class is_lower_hex)) (Seq (Class (is_char 45))
    (Seq (Between 4 4 (Class is_lower_hex)) (Seq (Class (is_char 45))
    (Seq (Between 4 4 (Class is_lower_hex)) (Seq (Class (is_char 45))
    (Seq (Between 4 4 (Class is_lower_hex)) (Seq (Class (is_char 45))
         (Between 12 12 (Class is_lower_hex)))))))))"

text \<open>\<^verbatim>\<open>/^[a-zA-Z0-9]{3,5}\/[^/]+(?:\/(?:[a-zA-Z]{2,3})?)?$/\<close>\<close>

definition codeNumberRegexp :: regex where
  "codeNumberRegexp =
     Seq (Between 3 5 (Class is_alnum)) (Seq (Class (is_char 47)) (Seq (Plus (Class is_nonslash))
       (Opt (Seq (Class (is_char 47)) (Opt (Between 2 3 (Class is_letter)))))))"

definition validLanguages :: "jsstring list" where
  "validLanguages = map js [''en'', ''es'', ''fr'', ''de'', ''it'', ''pt'', ''ja'', ''ko'', ''ru'',
     ''zhs'', ''zht'']"

text \<open>\<^verbatim>\<open>String.prototype.split\<close> with a separator of one code unit, and \<^verbatim>\<open>Array.prototype.join\<close>.\<close>

fun split_js :: "jschar \<Rightarrow> jsstring \<Rightarrow> jsstring list" where
  "split_js sep [] = [[]]"
| "split_js sep (c # cs) =
     (if c = sep then [] # split_js sep cs
      else (case split_js sep cs of [] \<Rightarrow> [[c]] | w # ws \<Rightarrow> (c # w) # ws))"

fun join_js :: "jschar \<Rightarrow> jsstring list \<Rightarrow> jsstring" where
  "join_js sep [] = []"
| "join_js sep [w] = w"
| "join_js sep (w # v # ws) = w @ sep # join_js sep (v # ws)"

text \<open>The failures a call can end in.\<close>

datatype fault = URIError | NetworkFault | DecodeFault | CallbackFault

text \<open>
  \<^verbatim>\<open>encodeURIComponent\<close>: the letters, the digits and \<^verbatim>\<open>- _ . ! ~ * ' ( )\<close> stay, every
  other code point is written as the percent-escaped bytes of its UTF-8 form, and a
  surrogate code unit that is not part of a pair raises URIError.
\<close>

definition is_unreserved :: "jschar \<Rightarrow> bool" where
  "is_unreserved c = (is_alnum c \<or> c \<in> {45, 95, 46, 33, 126, 42, 39, 40, 41})"

definition hex_digit :: "nat \<Rightarrow> jschar" where
  "hex_digit n = (if n < 10 then 48 + n else 55 + n)"

definition percent :: "nat \<Rightarrow> jsstring" where
  "percent b = [37, hex_digit (b div 16), hex_digit (b mod 16)]"

definition utf8 :: "nat \<Rightarrow> nat list" where
  "utf8 cp =
     (if cp < 128 then [cp]
      else if cp < 2048 then [192 + cp div 64, 128 + cp mod 64]
      else if cp < 65536 then [224 + cp div 4096, 128 + cp div 64 mod 64, 128 + cp mod 64]
      else [240 + cp div 262144, 128 + cp div 4096 mod 64, 128 + cp div 64 mod 64,
            128 + cp mod 64])"

definition is_high_surrogate :: "jschar \<Rightarrow> bool" where
  "is_high_surrogate c = (55296 \<le> c \<and> c \<le> 56319)"

definition is_low_surrogate :: "jschar \<Rightarrow> bool" where
  "is_low_surrogate c = (56320 \<le> c \<and> c \<le> 57343)"

definition escaped :: "nat \<Rightarrow> fault + jsstring \<Rightarrow> fault + jsstring" where
  "escaped cp rest = map_sum id (\<lambda>r. concat (map percent (utf8 cp)) @ r) rest"

fun encodeURIComponent :: "jsstring \<Rightarrow> fault + jsstring" where
  "encodeURIComponent [] = Inr []"
| "encodeURIComponent (c # cs) =
     (if is_unreserved c then map_sum id (\<lambda>r. c # r) (encodeURIComponent cs)
      else if is_low_surrogate c then Inl URIError
      else if is_high_surrogate c then
        (case cs of
           [] \<Rightarrow> Inl URIError
         | d # ds \<Rightarrow>
             if is_low_surrogate d
             then escaped ((c - 55296) * 1024 + (d - 56320) + 65536) (encodeURIComponent ds)
             else Inl URIError)
      else escaped c (encodeURIComponent cs))"

text \<open>
  The request of \<^verbatim>\<open>getCard\<close>. \<^verbatim>\<open>getCard\<close> is not an async function, so a URIError of
  \<^verbatim>\<open>encodeURIComponent\<close> is thrown to the caller before any call is made: \<open>Inl\<close>.
\<close>

definition cardCode :: "ParsedCard \<Rightarrow> jsstring" where
  "cardCode parsedCard =
     (case language parsedCard of
        None \<Rightarrow> name parsedCard
      | Some l \<Rightarrow>
          if l \<in> set validLanguages
          then join_js 47 (take 2 (split_js 47 (name parsedCard))) @ js ''/'' @ l
          else name parsedCard)"

definition requestURI :: "ParsedCard \<Rightarrow> fault + jsstring" where
  "requestURI parsedCard =
     (if regexp_test uuidRegexp (name parsedCard)
      then Inr (SCRYFALL_API_URI @ js ''/cards/'' @ name parsedCard)
      else if regexp_test codeNumberRegexp (name parsedCard)
      then Inr (SCRYFALL_API_URI @ js ''/cards/'' @ cardCode parsedCard)
      else map_sum id (\<lambda>q. SCRYFALL_API_URI @ js ''/cards/named/?fuzzy='' @ q)
             (encodeURIComponent (name parsedCard)))"

subsection \<open>The shapes of a name, in the words of the specification\<close>

text \<open>
  The unique-identifier shape: five groups of 8, 4, 4, 4 and 12 lowercase hexadecimal
  digits, separated by hyphens.
\<close>

definition uuid_shape :: "jsstring \<Rightarrow> bool" where
  "uuid_shape s = (case split_js 45 s of
       [a, b, c, d, e] \<Rightarrow>
         map length [a, b, c, d, e] = [8, 4, 4, 4, 12] \<and> list_all is_lower_hex (a @ b @ c @ d @ e)
     | _ \<Rightarrow> False)"

text \<open>
  The set/number code shape. \<open>code_shape_spec\<close> follows the specification: 3 to 5
  alphanumerics, a slash, a token without a slash, optionally followed by a slash and 2 or
  3 letters. \<open>code_shape\<close> also admits the second slash with nothing after it.
\<close>

definition set_code :: "jsstring \<Rightarrow> bool" where
  "set_code a = (3 \<le> length a \<and> length a \<le> 5 \<and> list_all is_alnum a)"

definition language_code :: "jsstring \<Rightarrow> bool" where
  "language_code c = (2 \<le> length c \<and> length c \<le> 3 \<and> list_all is_letter c)"

definition code_shape_spec :: "jsstring \<Rightarrow> bool" where
  "code_shape_spec s = (case split_js 47 s of
       [a, b] \<Rightarrow> set_code a \<and> b \<noteq> []
     | [a, b, c] \<Rightarrow> set_code a \<and> b \<noteq> [] \<and> language_code c
     | _ \<Rightarrow> False)"

definition code_shape :: "jsstring \<Rightarrow> bool" where
  "code_shape s = (case split_js 47 s of
       [a, b] \<Rightarrow> set_code a \<and> b \<noteq> []
     | [a, b, c] \<Rightarrow> set_code a \<and> b \<noteq> [] \<and> (c = [] \<or> language_code c)
     | _ \<Rightarrow> False)"

subsection \<open>Promises, the transport and the rate gate\<close>

text \<open>
  What becomes of a promise: it is rejected with a fault, it is fulfilled with a value,
  or it never settles (a call that hangs, a page chain that never ends). A value of type
  \<^verbatim>\<open>T | undefined\<close> is an \<open>option\<close>.
\<close>

datatype 'a promise = Rejected fault | Resolved 'a | Unsettled

text \<open>
  The transport: \<^verbatim>\<open>fetch(uri)\<close> is rejected, hangs, or gives a response with its
  \<^verbatim>\<open>ok\<close> flag and what \<^verbatim>\<open>json()\<close> makes of its body. The remote service is a
  parameter of the model: a function from the address to the outcome of the fetch.
\<close>

datatype 'j response = Response (ok: bool) (json: "'j promise")

type_synonym 'j remote = "jsstring \<Rightarrow> 'j response promise"

text \<open>
  Modelled from the spec: \<^verbatim>\<open>Delayer.execute\<close> of src/services/delayer is missing from the
  sources. Section 4.3 of the specification: it accepts a zero-argument operation and
  returns a promise of that operation's result; it only delays the start of the
  operation. The delay itself is not modelled.
\<close>

definition execute :: "(unit \<Rightarrow> 'a promise) \<Rightarrow> 'a promise" where
  "execute operation = operation ()"

text \<open>
  A callback may keep state of its own (what it has been called with, what it has
  written), so a callback takes the state \<open>'s\<close> of its owner and returns it updated, and
  so does every function that calls one.

  \<^verbatim>\<open>_callApi\<close>: the callback's result may be \<^verbatim>\<open>undefined\<close> itself.
\<close>

definition callApi ::
  "'j remote \<Rightarrow> jsstring \<Rightarrow> ('j \<Rightarrow> 's \<Rightarrow> 'r option promise \<times> 's) \<Rightarrow> 's
     \<Rightarrow> 'r option promise \<times> 's" where
  "callApi remote uri successCallback s =
     (case execute (\<lambda>_. remote uri) of
        Rejected e \<Rightarrow> (Rejected e, s)
      | Unsettled \<Rightarrow> (Unsettled, s)
      | Resolved res \<Rightarrow>
          if ok res then
            (case json res of
               Rejected e \<Rightarrow> (Rejected e, s)
             | Unsettled \<Rightarrow> (Unsettled, s)
             | Resolved j \<Rightarrow> successCallback j s)
          else (Resolved None, s))"

subsection \<open>Single and batch lookups\<close>

text \<open>\<^verbatim>\<open>getCard\<close>: \<^verbatim>\<open>_callApi\<close> with its default callback, the identity.\<close>

definition getCard :: "'c remote \<Rightarrow> ParsedCard \<Rightarrow> fault + 'c option promise" where
  "getCard remote parsedCard =
     (case requestURI parsedCard of
        Inl e \<Rightarrow> Inl e
      | Inr uri \<Rightarrow> Inr (fst (callApi remote uri (\<lambda>j s. (Resolved (Some j), s)) ())))"

text \<open>
  \<^verbatim>\<open>Promise.all\<close>. The promises settle in an order of their own: \<open>settled i\<close> is the
  instant at which the promise at index \<open>i\<close> settles. The result is rejected with the
  reason of the promise that is rejected first; it is fulfilled, with the values in the
  order of the list, when every promise is fulfilled.
\<close>

fun first_rejection :: "(nat \<Rightarrow> nat) \<Rightarrow> nat \<Rightarrow> 'a promise list \<Rightarrow> (nat \<times> fault) option" where
  "first_rejection settled i [] = None"
| "first_rejection settled i (p # ps) =
     (case p of
        Rejected e \<Rightarrow>
          (case first_rejection settled (Suc i) ps of
             None \<Rightarrow> Some (settled i, e)
           | Some (u, e') \<Rightarrow> if u < settled i then Some (u, e') else Some (settled i, e))
      | _ \<Rightarrow> first_rejection settled (Suc i) ps)"

fun all_values :: "'a promise list \<Rightarrow> 'a list option" where
  "all_values [] = Some []"
| "all_values (p # ps) =
     (case p of
        Resolved v \<Rightarrow> map_option (\<lambda>vs. v # vs) (all_values ps)
      | _ \<Rightarrow> None)"

definition Promise_all :: "(nat \<Rightarrow> nat) \<Rightarrow> 'a promise list \<Rightarrow> 'a list promise" where
  "Promise_all settled ps =
     (case first_rejection settled 0 ps of
        Some (u, e) \<Rightarrow> Rejected e
      | None \<Rightarrow> (case all_values ps of Some vs \<Rightarrow> Resolved vs | None \<Rightarrow> Unsettled))"

text \<open>\<^verbatim>\<open>Array.prototype.map\<close> with a function that may throw: the first throw ends it.\<close>

fun map_throwing :: "('a \<Rightarrow> fault + 'b) \<Rightarrow> 'a list \<Rightarrow> fault + 'b list" where
  "map_throwing f [] = Inr []"
| "map_throwing f (x # xs) =
     (case f x of
        Inl e \<Rightarrow> Inl e
      | Inr y \<Rightarrow> (case map_throwing f xs of Inl e \<Rightarrow> Inl e | Inr ys \<Rightarrow> Inr (y # ys)))"

definition getCardsBatch ::
  "(nat \<Rightarrow> nat) \<Rightarrow> 'c remote \<Rightarrow> ParsedCard list \<Rightarrow> fault + 'c option list promise" where
  "getCardsBatch settled remote parsedCard =
     (case map_throwing (\<lambda>c. getCard remote c) parsedCard of
        Inl e \<Rightarrow> Inl e
      | Inr promises \<Rightarrow> Inr (Promise_all settled promises))"

subsection \<open>Lists in pages\<close>

text \<open>The envelope of a list response.\<close>

record 't envelope =
  data :: "'t list"
  has_more :: bool
  next_page :: "jsstring option"

text \<open>
  \<^verbatim>\<open>.then(allData => allData !== undefined ? successCallback(allData) : undefined)\<close>
  and the plain call \<^verbatim>\<open>successCallback(data)\<close>, whose result of type \<^verbatim>\<open>U\<close> becomes a
  \<^verbatim>\<open>U | undefined\<close>.
\<close>

definition defined :: "'u promise \<times> 's \<Rightarrow> 'u option promise \<times> 's" where
  "defined r = (case r of
       (Rejected e, s) \<Rightarrow> (Rejected e, s)
     | (Unsettled, s) \<Rightarrow> (Unsettled, s)
     | (Resolved u, s) \<Rightarrow> (Resolved (Some u), s))"

definition then_defined ::
  "'a option promise \<times> 's \<Rightarrow> ('a \<Rightarrow> 's \<Rightarrow> 'u promise \<times> 's) \<Rightarrow> 'u option promise \<times> 's" where
  "then_defined p successCallback = (case p of
       (Rejected e, s) \<Rightarrow> (Rejected e, s)
     | (Unsettled, s) \<Rightarrow> (Unsettled, s)
     | (Resolved None, s) \<Rightarrow> (Resolved None, s)
     | (Resolved (Some allData), s) \<Rightarrow> defined (successCallback allData s))"

text \<open>
  \<^verbatim>\<open>_getListFromApi\<close> calls itself with another type for \<^verbatim>\<open>U\<close>: whatever the caller's
  \<^verbatim>\<open>U\<close> is, the inner calls have \<^verbatim>\<open>U = T[]\<close>, their callback being
  \<^verbatim>\<open>(listData) => [...json.data, ...listData]\<close>. HOL has no recursion at another type,
  so the function is written twice with one body: \<open>getListFromApi_list\<close> is the instance
  at \<^verbatim>\<open>U = T[]\<close>, which the recursion stays in, and \<open>getListFromApi\<close> is the caller's
  instance. A chain of pages need not end; the first argument bounds the number of pages
  fetched, and the promise of a chain that goes beyond it is \<open>Unsettled\<close>.
\<close>

primrec getListFromApi_list ::
  "nat \<Rightarrow> 't envelope remote \<Rightarrow> jsstring \<Rightarrow> ('t list \<Rightarrow> 's \<Rightarrow> 't list promise \<times> 's) \<Rightarrow> 's
     \<Rightarrow> 't list option promise \<times> 's" where
  "getListFromApi_list 0 remote uri successCallback s = (Unsettled, s)"
| "getListFromApi_list (Suc fuel) remote uri successCallback s =
     callApi remote uri
       (\<lambda>json s.
          (case (has_more json, next_page json) of
             (True, Some next) \<Rightarrow>
               then_defined
                 (getListFromApi_list fuel remote next
                    (\<lambda>listData s. (Resolved (data json @ listData), s)) s)
                 successCallback
           | _ \<Rightarrow> defined (successCallback (data json) s)))
       s"

definition getListFromApi ::
  "nat \<Rightarrow> 't envelope remote \<Rightarrow> jsstring \<Rightarrow> ('t list \<Rightarrow> 's \<Rightarrow> 'u promise \<times> 's) \<Rightarrow> 's
     \<Rightarrow> 'u option promise \<times> 's" where
  "getListFromApi fuel remote uri successCallback s =
     (case fuel of
        0 \<Rightarrow> (Unsettled, s)
      | Suc fuel' \<Rightarrow>
          callApi remote uri
            (\<lambda>json s.
               (case (has_more json, next_page json) of
                  (True, Some next) \<Rightarrow>
                    then_defined
                      (getListFromApi_list fuel' remote next
                         (\<lambda>listData s. (Resolved (data json @ listData), s)) s)
                      successCallback
                | _ \<Rightarrow> defined (successCallback (data json) s)))
            s)"

text \<open>
  The pages met from an address on: \<open>pages_from remote uri es uri'\<close> holds when the
  envelopes \<open>es\<close> are fetched one after the other from \<open>uri\<close> on, each with
  \<^verbatim>\<open>has_more\<close> set and a \<^verbatim>\<open>next_page\<close>, the last of them pointing to \<open>uri'\<close>.
\<close>

fun pages_from :: "'t envelope remote \<Rightarrow> jsstring \<Rightarrow> 't envelope list \<Rightarrow> jsstring \<Rightarrow> bool" where
  "pages_from remote uri [] uri' = (uri' = uri)"
| "pages_from remote uri (e # es) uri' =
     (remote uri = Resolved (Response True (Resolved e)) \<and> has_more e \<and>
      (case next_page e of None \<Rightarrow> False | Some next \<Rightarrow> pages_from remote next es uri'))"

section \<open>Example inputs\<close>

text \<open>A remote service given by a table of addresses; any other address cannot be reached.\<close>

definition serve :: "(jsstring \<times> 'j response promise) list \<Rightarrow> 'j remote" where
  "serve table uri = (case map_of table uri of None \<Rightarrow> Rejected NetworkFault | Some r \<Rightarrow> r)"

definition found :: "'j \<Rightarrow> 'j response promise" where
  "found j = Resolved (Response True (Resolved j))"

definition not_found :: "'j response promise" where
  "not_found = Resolved (Response False (Rejected DecodeFault))"

text \<open>Pages of numbers, and a callback that counts the entries and records each call.\<close>

definition page :: "nat list \<Rightarrow> bool \<Rightarrow> string option \<Rightarrow> nat envelope" where
  "page xs hm nxt = \<lparr>data = xs, has_more = hm, next_page = map_option js nxt\<rparr>"

definition counting :: "nat list \<Rightarrow> nat list list \<Rightarrow> nat promise \<times> nat list list" where
  "counting xs calls = (Resolved (length xs), calls @ [xs])"

definition three_pages :: "nat envelope remote" where
  "three_pages = serve
     [(js ''p1'', found (page [1, 2] True (Some ''p2''))),
      (js ''p2'', found (page [3] True (Some ''p3''))),
      (js ''p3'', found (page [4, 5] False None))]"

definition open_ended :: "nat envelope remote" where
  "open_ended = serve
     [(js ''p1'', found (page [1, 2] True (Some ''p2''))),
      (js ''p2'', found (page [3] True None))]"

definition second_page_missing :: "nat envelope remote" where
  "second_page_missing = serve
     [(js ''p1'', found (page [1, 2] True (Some ''p2''))),
      (js ''p2'', not_found)]"

definition second_page_unreachable :: "nat envelope remote" where
  "second_page_unreachable = serve
     [(js ''p1'', found (page [1, 2] True (Some ''p2'')))]"

text \<open>References, and a catalogue that answers with the printed name of the card.\<close>

definition reference :: "string \<Rightarrow> string option \<Rightarrow> ParsedCard" where
  "reference n l = \<lparr>name = js n, quantity = Num 0, language = map_option js l,
     customFlags = Map.empty\<rparr>"

definition catalogue :: "string remote" where
  "catalogue = serve
     [(js ''https://api.scryfall.com/cards/m3c/331/fr'', found ''Tour de commandement''),
      (js ''https://api.scryfall.com/cards/named/?fuzzy=Black%20Lotus'', found ''Black Lotus''),
      (js ''https://api.scryfall.com/cards/named/?fuzzy=Blcak%20Lotsu'', not_found)]"

section \<open>Properties of the pagination\<close>

lemma then_defined_simps:
  "then_defined (Rejected e, s) cb = (Rejected e, s)"
  "then_defined (Unsettled, s) cb = (Unsettled, s)"
  "then_defined (Resolved None, s) cb = (Resolved None, s)"
  "then_defined (Resolved (Some x), s) cb = defined (cb x s)"
  by (simp_all add: then_defined_def)

lemma defined_simps:
  "defined (Rejected e, s) = (Rejected e, s)"
  "defined (Unsettled, s) = (Unsettled, s)"
  "defined (Resolved u, s) = (Resolved (Some u), s)"
  by (simp_all add: defined_def)

text \<open>Two callbacks in a row, the first of which only rewrites the list, are one callback.\<close>

lemma then_defined_fuse:
  "then_defined (then_defined X (\<lambda>l s. (Resolved (f l), s))) cb = then_defined X (\<lambda>l. cb (f l))"
proof (cases X)
  case (Pair p s)
  show ?thesis
  proof (cases p)
    case (Resolved v)
    with Pair show ?thesis
      by (cases v) (simp_all add: then_defined_simps defined_simps)
  qed (simp_all add: Pair then_defined_simps)
qed

lemma getListFromApi_list_Suc:
  "getListFromApi_list (Suc k) remote uri cb s =
     (case remote uri of
        Rejected x \<Rightarrow> (Rejected x, s)
      | Unsettled \<Rightarrow> (Unsettled, s)
      | Resolved res \<Rightarrow>
          if ok res then
            (case json res of
               Rejected x \<Rightarrow> (Rejected x, s)
             | Unsettled \<Rightarrow> (Unsettled, s)
             | Resolved e \<Rightarrow>
                 if has_more e then
                   (case next_page e of
                      None \<Rightarrow> defined (cb (data e) s)
                    | Some nxt \<Rightarrow>
                        then_defined (getListFromApi_list k remote nxt
                          (\<lambda>l s. (Resolved (data e @ l), s)) s) cb)
                 else defined (cb (data e) s))
          else (Resolved None, s))"
  by (simp add: callApi_def execute_def split: promise.split bool.split option.split)

lemma getListFromApi_Suc:
  "getListFromApi (Suc k) remote uri cb s =
     (case remote uri of
        Rejected x \<Rightarrow> (Rejected x, s)
      | Unsettled \<Rightarrow> (Unsettled, s)
      | Resolved res \<Rightarrow>
          if ok res then
            (case json res of
               Rejected x \<Rightarrow> (Rejected x, s)
             | Unsettled \<Rightarrow> (Unsettled, s)
             | Resolved e \<Rightarrow>
                 if has_more e then
                   (case next_page e of
                      None \<Rightarrow> defined (cb (data e) s)
                    | Some nxt \<Rightarrow>
                        then_defined (getListFromApi_list k remote nxt
                          (\<lambda>l s. (Resolved (data e @ l), s)) s) cb)
                 else defined (cb (data e) s))
          else (Resolved None, s))"
  by (simp add: getListFromApi_def callApi_def execute_def split: promise.split bool.split option.split)

lemma getListFromApi_list_fuse:
  "then_defined (getListFromApi_list n remote uri (\<lambda>l s. (Resolved (f l), s)) s) cb
     = getListFromApi_list n remote uri (\<lambda>l. cb (f l)) s"
proof (cases n)
  case 0
  then show ?thesis by (simp add: then_defined_simps)
next
  case (Suc k)
  show ?thesis
    unfolding Suc getListFromApi_list_Suc
    by (simp add: then_defined_simps defined_simps then_defined_fuse
        split: promise.split option.split)
qed

lemma getListFromApi_list_pages:
  "pages_from remote uri es uri' \<Longrightarrow>
   getListFromApi_list (length es + n) remote uri cb s
     = getListFromApi_list n remote uri' (\<lambda>l. cb (concat (map data es) @ l)) s"
proof (induction es arbitrary: uri cb)
  case Nil
  then show ?case by simp
next
  case (Cons e es)
  from Cons.prems obtain nxt where
    r: "remote uri = Resolved (Response True (Resolved e))" and h: "has_more e"
    and n: "next_page e = Some nxt" and p: "pages_from remote nxt es uri'"
    by (auto split: option.splits)
  have "getListFromApi_list (length (e # es) + n) remote uri cb s
      = then_defined (getListFromApi_list (length es + n) remote nxt
           (\<lambda>l s. (Resolved (data e @ l), s)) s) cb"
    using r h n by (simp add: getListFromApi_list_Suc del: getListFromApi_list.simps)
  also have "\<dots> = then_defined (getListFromApi_list n remote uri'
           (\<lambda>l s. (Resolved (data e @ concat (map data es) @ l), s)) s) cb"
    using Cons.IH [OF p] by simp
  also have "\<dots> = getListFromApi_list n remote uri' (\<lambda>l. cb (data e @ concat (map data es) @ l)) s"
    by (rule getListFromApi_list_fuse)
  finally show ?case by simp
qed

lemma getListFromApi_as_list:
  "getListFromApi n remote uri cb s
     = then_defined (getListFromApi_list n remote uri (\<lambda>l s. (Resolved l, s)) s) cb"
proof (cases n)
  case 0
  then show ?thesis by (simp add: getListFromApi_def then_defined_simps)
next
  case (Suc k)
  show ?thesis
    unfolding Suc getListFromApi_list_Suc getListFromApi_Suc
    by (simp add: then_defined_simps defined_simps then_defined_fuse [where f = "\<lambda>l. l"]
        split: promise.split option.split)
qed

lemma getListFromApi_list_last:
  "remote uri = Resolved (Response True (Resolved e)) \<Longrightarrow> \<not> (has_more e \<and> next_page e \<noteq> None) \<Longrightarrow>
   getListFromApi_list (Suc n) remote uri cb s = defined (cb (data e) s)"
  by (auto simp: getListFromApi_list_Suc simp del: getListFromApi_list.simps split: option.splits)

lemma getListFromApi_list_stops:
  "remote uri = Resolved (Response False j) \<Longrightarrow>
     getListFromApi_list (Suc n) remote uri cb s = (Resolved None, s)"
  "remote uri = Rejected x \<Longrightarrow> getListFromApi_list (Suc n) remote uri cb s = (Rejected x, s)"
  "remote uri = Resolved (Response True (Rejected x)) \<Longrightarrow>
     getListFromApi_list (Suc n) remote uri cb s = (Rejected x, s)"
  "remote uri = Unsettled \<Longrightarrow> getListFromApi_list (Suc n) remote uri cb s = (Unsettled, s)"
  by (simp_all add: getListFromApi_list_Suc del: getListFromApi_list.simps)

lemma getListFromApi_follow:
  assumes "pages_from remote uri es uri'" and "length es < fuel"
  shows "\<exists>n. getListFromApi fuel remote uri cb s =
           then_defined (getListFromApi_list (Suc n) remote uri'
             (\<lambda>l s. (Resolved (concat (map data es) @ l), s)) s) cb"
proof -
  from assms(2) obtain n where "fuel = Suc (length es + n)"
    by (auto dest: less_imp_Suc_add)
  then have f: "fuel = length es + Suc n"
    by simp
  have "getListFromApi_list fuel remote uri (\<lambda>l s. (Resolved l, s)) s
      = getListFromApi_list (Suc n) remote uri' (\<lambda>l s. (Resolved (concat (map data es) @ l), s)) s"
    unfolding f by (rule getListFromApi_list_pages [OF assms(1)])
  then have "getListFromApi fuel remote uri cb s =
           then_defined (getListFromApi_list (Suc n) remote uri'
             (\<lambda>l s. (Resolved (concat (map data es) @ l), s)) s) cb"
    by (simp only: getListFromApi_as_list)
  then show ?thesis ..
qed

lemma getListFromApi_chain:
  assumes "pages_from remote uri es uri'"
    and "remote uri' = Resolved (Response True (Resolved e))"
    and "\<not> (has_more e \<and> next_page e \<noteq> None)"
    and "length es < fuel"
  shows "getListFromApi fuel remote uri cb s = defined (cb (concat (map data es) @ data e) s)"
proof -
  from getListFromApi_follow [OF assms(1,4), where cb = cb and s = s] obtain n where
    "getListFromApi fuel remote uri cb s =
       then_defined (getListFromApi_list (Suc n) remote uri'
         (\<lambda>l s. (Resolved (concat (map data es) @ l), s)) s) cb"
    by (elim exE)
  also have "getListFromApi_list (Suc n) remote uri'
         (\<lambda>l s. (Resolved (concat (map data es) @ l), s)) s
       = defined (Resolved (concat (map data es) @ data e), s)"
    by (rule getListFromApi_list_last [where remote = remote and uri = uri', OF assms(2,3)])
  finally show ?thesis
    by (simp only: defined_simps then_defined_simps)
qed

lemma getListFromApi_chain_stops:
  assumes "pages_from remote uri es uri'"
    and "length es < fuel"
  shows "remote uri' = Resolved (Response False j) \<Longrightarrow>
           getListFromApi fuel remote uri cb s = (Resolved None, s)"
    and "remote uri' = Rejected x \<Longrightarrow> getListFromApi fuel remote uri cb s = (Rejected x, s)"
    and "remote uri' = Resolved (Response True (Rejected x)) \<Longrightarrow>
           getListFromApi fuel remote uri cb s = (Rejected x, s)"
    and "remote uri' = Unsettled \<Longrightarrow> getListFromApi fuel remote uri cb s = (Unsettled, s)"
proof -
  let ?K = "\<lambda>l s. (Resolved (concat (map data es) @ l), s)"
  from getListFromApi_follow [OF assms, where cb = cb and s = s] obtain n where
    *: "getListFromApi fuel remote uri cb s =
       then_defined (getListFromApi_list (Suc n) remote uri' ?K s) cb"
    by (elim exE)
  show "getListFromApi fuel remote uri cb s = (Resolved None, s)"
    if r: "remote uri' = Resolved (Response False j)"
  proof -
    have "getListFromApi_list (Suc n) remote uri' ?K s = (Resolved None, s)"
      by (rule getListFromApi_list_stops(1) [where remote = remote and uri = uri', OF r])
    with * show ?thesis by (simp only: then_defined_simps)
  qed
  show "getListFromApi fuel remote uri cb s = (Rejected x, s)"
    if r: "remote uri' = Rejected x"
  proof -
    have "getListFromApi_list (Suc n) remote uri' ?K s = (Rejected x, s)"
      by (rule getListFromApi_list_stops(2) [where remote = remote and uri = uri', OF r])
    with * show ?thesis by (simp only: then_defined_simps)
  qed
  show "getListFromApi fuel remote uri cb s = (Rejected x, s)"
    if r: "remote uri' = Resolved (Response True (Rejected x))"
  proof -
    have "getListFromApi_list (Suc n) remote uri' ?K s = (Rejected x, s)"
      by (rule getListFromApi_list_stops(3) [where remote = remote and uri = uri', OF r])
    with * show ?thesis by (simp only: then_defined_simps)
  qed
  show "getListFromApi fuel remote uri cb s = (Unsettled, s)"
    if r: "remote uri' = Unsettled"
  proof -
    have "getListFromApi_list (Suc n) remote uri' ?K s = (Unsettled, s)"
      by (rule getListFromApi_list_stops(4) [where remote = remote and uri = uri', OF r])
    with * show ?thesis by (simp only: then_defined_simps)
  qed
qed

lemmas example_defs = serve_def found_def not_found_def page_def counting_def js_def
  three_pages_def open_ended_def second_page_missing_def second_page_unreachable_def

text \<open>
  Claim C4. When every page but the last has \<^verbatim>\<open>has_more\<close> set and a \<^verbatim>\<open>next_page\<close>, and
  the last page has \<^verbatim>\<open>has_more\<close> unset, the fetch is exactly one call of the caller's
  callback on the entries of all pages in the order of the pages: the promise is the
  callback's, and the state of the callback's owner is the one that single call leaves.
  Fuel above the number of pages followed is enough.
\<close>

theorem getListFromApi_assembles:
  assumes "pages_from remote uri es uri'"
    and "remote uri' = Resolved (Response True (Resolved e))"
    and "\<not> has_more e"
    and "length es < fuel"
  shows "getListFromApi fuel remote uri successCallback s
           = defined (successCallback (concat (map data (es @ [e]))) s)"
  using getListFromApi_chain [where remote = remote and uri' = uri', OF assms(1,2) _ assms(4)] assms(3)
  by simp

theorem getListFromApi_assembles_witness:
  "pages_from three_pages (js ''p1'') [page [1, 2] True (Some ''p2''), page [3] True (Some ''p3'')]
     (js ''p3'')
   \<and> three_pages (js ''p3'') = Resolved (Response True (Resolved (page [4, 5] False None)))
   \<and> \<not> has_more (page [4, 5] False None)
   \<and> getListFromApi 3 three_pages (js ''p1'') counting []
       = (Resolved (Some 5), [[1, 2, 3, 4, 5]])"
proof -
  have 1: "pages_from three_pages (js ''p1'')
      [page [1, 2] True (Some ''p2''), page [3] True (Some ''p3'')] (js ''p3'')"
    by (simp add: example_defs)
  have 2: "three_pages (js ''p3'') = Resolved (Response True (Resolved (page [4, 5] False None)))"
    by (simp add: example_defs)
  have 3: "\<not> has_more (page [4, 5] False None)"
    by (simp add: example_defs)
  have "getListFromApi 3 three_pages (js ''p1'') counting []
       = (Resolved (Some 5), [[1, 2, 3, 4, 5]])"
    using getListFromApi_assembles [where remote = three_pages and uri' = "js ''p3''"
        and fuel = 3 and successCallback = counting and s = "[]", OF 1 2 3]
    by (simp add: page_def counting_def defined_simps)
  with 1 2 3 show ?thesis by blast
qed

text \<open>
  Claim C10. A page with \<^verbatim>\<open>has_more\<close> set and no \<^verbatim>\<open>next_page\<close> ends the chain: the
  callback is called once on the entries gathered up to and including that page, no
  further page is fetched and nothing is rejected.
\<close>

theorem getListFromApi_open_ended:
  assumes "pages_from remote uri es uri'"
    and "remote uri' = Resolved (Response True (Resolved e))"
    and "has_more e" and "next_page e = None"
    and "length es < fuel"
  shows "getListFromApi fuel remote uri successCallback s
           = defined (successCallback (concat (map data es) @ data e) s)"
  using getListFromApi_chain [where remote = remote and uri' = uri', OF assms(1,2) _ assms(5)] assms(4)
  by simp

theorem getListFromApi_open_ended_witness:
  "pages_from open_ended (js ''p1'') [page [1, 2] True (Some ''p2'')] (js ''p2'')
   \<and> open_ended (js ''p2'') = Resolved (Response True (Resolved (page [3] True None)))
   \<and> has_more (page [3] True None) \<and> next_page (page [3] True None) = None
   \<and> getListFromApi 2 open_ended (js ''p1'') counting [] = (Resolved (Some 3), [[1, 2, 3]])"
proof -
  have 1: "pages_from open_ended (js ''p1'') [page [1, 2] True (Some ''p2'')] (js ''p2'')"
    by (simp add: example_defs)
  have 2: "open_ended (js ''p2'') = Resolved (Response True (Resolved (page [3] True None)))"
    by (simp add: example_defs)
  have 3: "has_more (page [3] True None)" and 4: "next_page (page [3] True None) = None"
    by (simp_all add: example_defs)
  have "getListFromApi 2 open_ended (js ''p1'') counting [] = (Resolved (Some 3), [[1, 2, 3]])"
    using getListFromApi_open_ended [where remote = open_ended and uri' = "js ''p2''"
        and fuel = 2 and successCallback = counting and s = "[]", OF 1 2 3 4]
    by (simp add: page_def counting_def defined_simps)
  with 1 2 3 4 show ?thesis by blast
qed

text \<open>
  Claim C3 says that a failure anywhere in the chain, a transport failure included, makes
  the fetch resolve to an absent result. A second page that cannot be reached rejects the
  whole fetch instead: nothing in \<^verbatim>\<open>_callApi\<close> or \<^verbatim>\<open>_getListFromApi\<close> catches a rejection.
\<close>

theorem getListFromApi_transport_fault_counterexample:
  "pages_from second_page_unreachable (js ''p1'') [page [1, 2] True (Some ''p2'')] (js ''p2'')
   \<and> second_page_unreachable (js ''p2'') = Rejected NetworkFault
   \<and> getListFromApi 2 second_page_unreachable (js ''p1'') counting []
        = (Rejected NetworkFault, [])
   \<and> fst (getListFromApi 2 second_page_unreachable (js ''p1'') counting []) \<noteq> Resolved None"
  by (simp add: example_defs getListFromApi_def getListFromApi_list_Suc callApi_def execute_def
      then_defined_simps defined_simps del: getListFromApi_list.simps)

text \<open>
  Claim C3, amended. When the chain reaches a page whose response is not ok, the fetch
  resolves to an absent result and the callback is not called; when the fetch of that
  page or the decoding of its body is rejected, the whole fetch is rejected with the same
  fault.
\<close>

theorem getListFromApi_failed_page:
  assumes "pages_from remote uri es uri'" and "length es < fuel"
  shows "(\<forall>j. remote uri' = Resolved (Response False j) \<longrightarrow>
            getListFromApi fuel remote uri successCallback s = (Resolved None, s))
       \<and> (\<forall>x. remote uri' = Rejected x \<or> remote uri' = Resolved (Response True (Rejected x)) \<longrightarrow>
            getListFromApi fuel remote uri successCallback s = (Rejected x, s))"
  using getListFromApi_chain_stops(1,2,3) [OF assms, where cb = successCallback and s = s]
  by auto

theorem getListFromApi_failed_page_witness:
  "pages_from second_page_missing (js ''p1'') [page [1, 2] True (Some ''p2'')] (js ''p2'')
   \<and> second_page_missing (js ''p2'') = Resolved (Response False (Rejected DecodeFault))
   \<and> getListFromApi 2 second_page_missing (js ''p1'') counting [] = (Resolved None, [])
   \<and> pages_from second_page_unreachable (js ''p1'') [page [1, 2] True (Some ''p2'')] (js ''p2'')
   \<and> second_page_unreachable (js ''p2'') = Rejected NetworkFault
   \<and> getListFromApi 2 second_page_unreachable (js ''p1'') counting [] = (Rejected NetworkFault, [])"
proof -
  have 1: "pages_from second_page_missing (js ''p1'') [page [1, 2] True (Some ''p2'')] (js ''p2'')"
    by (simp add: example_defs)
  have 2: "second_page_missing (js ''p2'') = Resolved (Response False (Rejected DecodeFault))"
    by (simp add: example_defs)
  have 3: "pages_from second_page_unreachable (js ''p1'') [page [1, 2] True (Some ''p2'')] (js ''p2'')"
    by (simp add: example_defs)
  have 4: "second_page_unreachable (js ''p2'') = Rejected NetworkFault"
    by (simp add: example_defs)
  have 5: "getListFromApi 2 second_page_missing (js ''p1'') counting [] = (Resolved None, [])"
    using getListFromApi_failed_page [where remote = second_page_missing and uri' = "js ''p2''"
        and fuel = 2 and successCallback = counting and s = "[]", OF 1] 2
    by simp
  have 6: "getListFromApi 2 second_page_unreachable (js ''p1'') counting [] = (Rejected NetworkFault, [])"
    using getListFromApi_failed_page [where remote = second_page_unreachable and uri' = "js ''p2''"
        and fuel = 2 and successCallback = counting and s = "[]", OF 3] 4
    by simp
  from 1 2 3 4 5 6 show ?thesis by blast
qed

section \<open>Properties of the lookups\<close>

lemmas class_defs = is_digit_def is_lower_hex_def is_letter_def is_alnum_def
  is_line_terminator_def is_dot_def is_space_def is_nonspace_def is_char_def is_nonslash_def

lemmas match_defs = regexp_test_def regexp_exec_def each_def clear_def class_defs

lemmas request_defs = requestURI_def cardCode_def uuidRegexp_def codeNumberRegexp_def
  validLanguages_def SCRYFALL_API_URI_def match_defs is_unreserved_def escaped_def percent_def
  utf8_def hex_digit_def is_high_surrogate_def is_low_surrogate_def reference_def js_def

lemma request_black_lotus:
  "requestURI (reference ''Black Lotus'' None)
     = Inr (js ''https://api.scryfall.com/cards/named/?fuzzy=Black%20Lotus'')"
  by (simp add: request_defs)

lemma request_misspelt:
  "requestURI (reference ''Blcak Lotsu'' None)
     = Inr (js ''https://api.scryfall.com/cards/named/?fuzzy=Blcak%20Lotsu'')"
  by (simp add: request_defs)

lemma request_unknown:
  "requestURI (reference ''Mox'' None)
     = Inr (js ''https://api.scryfall.com/cards/named/?fuzzy=Mox'')"
  by (simp add: request_defs)

lemma request_override:
  "requestURI (reference ''m3c/331/de'' (Some ''fr''))
     = Inr (js ''https://api.scryfall.com/cards/m3c/331/fr'')"
  by (simp add: request_defs)

lemma getCard_cases:
  assumes "requestURI parsedCard = Inr uri"
  shows "getCard remote parsedCard = Inr
     (case remote uri of
        Rejected x \<Rightarrow> Rejected x
      | Unsettled \<Rightarrow> Unsettled
      | Resolved res \<Rightarrow>
          if ok res then
            (case json res of
               Rejected x \<Rightarrow> Rejected x
             | Unsettled \<Rightarrow> Unsettled
             | Resolved j \<Rightarrow> Resolved (Some j))
          else Resolved None)"
  using assms by (simp add: getCard_def callApi_def execute_def split: promise.split)

text \<open>
  Claim C6. For a reference whose request can be built, \<^verbatim>\<open>getCard\<close> resolves to an
  absent result exactly when the response is not ok, and it is rejected exactly when the
  fetch is rejected or the decoding of an ok response is: a transport fault is never
  turned into an absent result, and a response that is not ok is never an error.
\<close>

theorem getCard_absent_or_rejected:
  assumes "requestURI parsedCard = Inr uri"
  shows "(getCard remote parsedCard = Inr (Resolved None))
           = (\<exists>res. remote uri = Resolved res \<and> \<not> ok res)
       \<and> (\<forall>x. (getCard remote parsedCard = Inr (Rejected x))
           = (remote uri = Rejected x
              \<or> (\<exists>res. remote uri = Resolved res \<and> ok res \<and> json res = Rejected x)))"
  unfolding getCard_cases [where remote = remote, OF assms]
  by (auto split: promise.splits)

theorem getCard_absent_or_rejected_witness:
  "requestURI (reference ''Blcak Lotsu'' None)
     = Inr (js ''https://api.scryfall.com/cards/named/?fuzzy=Blcak%20Lotsu'')
   \<and> getCard catalogue (reference ''Blcak Lotsu'' None) = Inr (Resolved None)
   \<and> requestURI (reference ''Mox'' None)
     = Inr (js ''https://api.scryfall.com/cards/named/?fuzzy=Mox'')
   \<and> getCard catalogue (reference ''Mox'' None) = Inr (Rejected NetworkFault)"
proof -
  have a: "catalogue (js ''https://api.scryfall.com/cards/named/?fuzzy=Blcak%20Lotsu'')
      = Resolved (Response False (Rejected DecodeFault))"
    by (simp add: catalogue_def serve_def found_def not_found_def js_def)
  have b: "catalogue (js ''https://api.scryfall.com/cards/named/?fuzzy=Mox'') = Rejected NetworkFault"
    by (simp add: catalogue_def serve_def found_def not_found_def js_def)
  have 1: "getCard catalogue (reference ''Blcak Lotsu'' None) = Inr (Resolved None)"
    using getCard_absent_or_rejected [where remote = catalogue, OF request_misspelt] a by simp
  have 2: "getCard catalogue (reference ''Mox'' None) = Inr (Rejected NetworkFault)"
    using getCard_absent_or_rejected [where remote = catalogue, OF request_unknown] b by simp
  from 1 2 request_misspelt request_unknown show ?thesis by blast
qed

lemma map_throwing_Inr:
  "(map_throwing f xs = Inr ys) = (map f xs = map Inr ys)"
proof (induction xs arbitrary: ys)
  case Nil
  then show ?case by auto
next
  case (Cons x xs)
  show ?case
  proof (cases "f x")
    case (Inl e)
    then show ?thesis by (cases ys) auto
  next
    case (Inr y)
    show ?thesis
    proof (cases "map_throwing f xs")
      case (Inl e)
      with Inr Cons.IH show ?thesis by (cases ys) auto
    next
      case r: (Inr zs)
      with Inr Cons.IH [of zs] Cons.IH show ?thesis by (cases ys) auto
    qed
  qed
qed

lemma first_rejection_None:
  "(first_rejection settled i ps = None) = (\<forall>p \<in> set ps. \<forall>x. p \<noteq> Rejected x)"
  by (induction ps arbitrary: i) (auto split: promise.splits option.splits)

lemma all_values_Some:
  "(all_values ps = Some vs) = (ps = map Resolved vs)"
proof (induction ps arbitrary: vs)
  case Nil
  then show ?case by auto
next
  case (Cons p ps)
  show ?case
  proof (cases p)
    case (Resolved v)
    with Cons.IH show ?thesis by (cases vs) auto
  qed (auto)
qed

lemma Promise_all_Resolved:
  "(Promise_all settled ps = Resolved vs) = (ps = map Resolved vs)"
proof
  assume "Promise_all settled ps = Resolved vs"
  then have "all_values ps = Some vs"
    by (auto simp: Promise_all_def split: option.splits prod.splits)
  then show "ps = map Resolved vs" by (simp add: all_values_Some)
next
  assume p: "ps = map Resolved vs"
  then have "first_rejection settled 0 ps = None"
    by (auto simp: first_rejection_None)
  moreover from p have "all_values ps = Some vs" by (simp add: all_values_Some)
  ultimately show "Promise_all settled ps = Resolved vs"
    by (simp add: Promise_all_def)
qed

text \<open>
  Claim C9. Whatever the instants at which the single lookups settle, \<^verbatim>\<open>getCardsBatch\<close>
  is fulfilled with a list of results exactly when every single lookup is fulfilled, and
  the list then holds the result of each lookup at the position of its reference.
\<close>

theorem getCardsBatch_in_order:
  "(getCardsBatch settled remote parsedCard = Inr (Resolved results))
     = (map (getCard remote) parsedCard = map (\<lambda>r. Inr (Resolved r)) results)"
proof
  assume "getCardsBatch settled remote parsedCard = Inr (Resolved results)"
  then obtain ps where m: "map_throwing (\<lambda>c. getCard remote c) parsedCard = Inr ps"
    and a: "Promise_all settled ps = Resolved results"
    by (auto simp: getCardsBatch_def split: sum.splits)
  from a have "ps = map Resolved results" by (simp add: Promise_all_Resolved)
  with m show "map (getCard remote) parsedCard = map (\<lambda>r. Inr (Resolved r)) results"
    by (simp add: map_throwing_Inr)
next
  assume "map (getCard remote) parsedCard = map (\<lambda>r. Inr (Resolved r)) results"
  then have "map_throwing (\<lambda>c. getCard remote c) parsedCard = Inr (map Resolved results)"
    by (simp add: map_throwing_Inr)
  then show "getCardsBatch settled remote parsedCard = Inr (Resolved results)"
    by (simp add: getCardsBatch_def Promise_all_Resolved)
qed

theorem getCardsBatch_in_order_witness:
  "getCardsBatch (\<lambda>i. 2 - i) catalogue
       [reference ''m3c/331/de'' (Some ''fr''), reference ''Black Lotus'' None]
     = Inr (Resolved [Some ''Tour de commandement'', Some ''Black Lotus''])
   \<and> getCard catalogue (reference ''m3c/331/de'' (Some ''fr''))
     = Inr (Resolved (Some ''Tour de commandement''))
   \<and> getCard catalogue (reference ''Black Lotus'' None) = Inr (Resolved (Some ''Black Lotus''))"
proof -
  have 1: "getCard catalogue (reference ''m3c/331/de'' (Some ''fr''))
      = Inr (Resolved (Some ''Tour de commandement''))"
    unfolding getCard_cases [where remote = catalogue, OF request_override]
    by (simp add: catalogue_def serve_def found_def not_found_def js_def)
  have 2: "getCard catalogue (reference ''Black Lotus'' None) = Inr (Resolved (Some ''Black Lotus''))"
    unfolding getCard_cases [where remote = catalogue, OF request_black_lotus]
    by (simp add: catalogue_def serve_def found_def not_found_def js_def)
  have "getCardsBatch (\<lambda>i. 2 - i) catalogue
       [reference ''m3c/331/de'' (Some ''fr''), reference ''Black Lotus'' None]
     = Inr (Resolved [Some ''Tour de commandement'', Some ''Black Lotus''])"
    using getCardsBatch_in_order [of "\<lambda>i. 2 - i" catalogue
        "[reference ''m3c/331/de'' (Some ''fr''), reference ''Black Lotus'' None]"
        "[Some ''Tour de commandement'', Some ''Black Lotus'']"] 1 2
    by simp
  with 1 2 show ?thesis by blast
qed

section \<open>Properties of the matcher\<close>

lemma set_each: "set (each xs f) = (\<Union>x\<in>set xs. set (f x))"
  by (simp add: each_def)

lemma each_simps: "each [] f = []" "each (x # xs) f = f x @ each xs f"
  "each (xs @ ys) f = each xs f @ each ys f"
  by (simp_all add: each_def)

lemma map_each: "map h (each xs f) = each xs (\<lambda>x. map h (f x))"
  by (simp add: each_def map_concat comp_def)

lemma each_map: "each (map h xs) f = each xs (\<lambda>x. f (h x))"
  by (simp add: each_def comp_def)

lemma each_cong: "xs = ys \<Longrightarrow> (\<And>x. x \<in> set ys \<Longrightarrow> f x = g x) \<Longrightarrow> each xs f = each ys g"
  by (simp add: each_def cong: map_cong)

declare m.simps(4) [simp del]

lemma m_Rep_done: "m (Rep g mn (Some 0) r) st = [st]"
  by (subst m.simps(4)) simp

lemma m_Rep_least:
  "0 < mn \<Longrightarrow> mx \<noteq> Some 0 \<Longrightarrow>
   m (Rep g mn mx r) st =
     each (m r (clear (groups r) st)) (\<lambda>st'. m (Rep g (mn - 1) (map_option (\<lambda>k. k - 1) mx) r) st')"
  by (subst m.simps(4)) (simp add: Let_def)

lemma m_Rep_greedy:
  "mx \<noteq> Some 0 \<Longrightarrow>
   m (Rep True 0 mx r) st =
     each (m r (clear (groups r) st))
       (\<lambda>st'. if length (fst st) \<le> length (fst st') then []
              else m (Rep True 0 (map_option (\<lambda>k. k - 1) mx) r) st') @ [st]"
  by (subst m.simps(4)) (simp add: Let_def cong: if_cong)

lemma m_Rep_lazy:
  "mx \<noteq> Some 0 \<Longrightarrow>
   m (Rep False 0 mx r) st =
     st # each (m r (clear (groups r) st))
       (\<lambda>st'. if length (fst st) \<le> length (fst st') then []
              else m (Rep False 0 (map_option (\<lambda>k. k - 1) mx) r) st')"
  by (subst m.simps(4)) (simp add: Let_def cong: if_cong)

lemma set_m_Rep:
  "set (m (Rep g mn mx r) st) =
     (if mx = Some 0 then {st}
      else (if mn = 0 then {st} else {}) \<union>
        (\<Union>st1\<in>set (m r (clear (groups r) st)).
           if mn = 0 \<and> length (fst st) \<le> length (fst st1) then {}
           else set (m (Rep g (mn - 1) (map_option (\<lambda>k. k - 1) mx) r) st1)))"
proof (cases "mx = Some 0")
  case True
  then show ?thesis by (simp add: m_Rep_done)
next
  case False
  show ?thesis
  proof (cases "0 < mn")
    case True
    with False show ?thesis
      by (simp add: m_Rep_least set_each)
  next
    case z: False
    then have mn: "mn = 0" by simp
    show ?thesis
    proof (cases g)
      case True
      with False show ?thesis
        unfolding mn by (auto simp: m_Rep_greedy set_each split: if_splits)
    next
      case g: False
      with False show ?thesis
        unfolding mn by (auto simp: m_Rep_lazy set_each split: if_splits)
    qed
  qed
qed

lemma m_Rep_cases:
  assumes "st' \<in> set (m (Rep g mn mx r) st)"
  obtains "st' = st"
  | st1 where "mx \<noteq> Some 0" and "st1 \<in> set (m r (clear (groups r) st))"
      and "\<not> (mn = 0 \<and> length (fst st) \<le> length (fst st1))"
      and "st' \<in> set (m (Rep g (mn - 1) (map_option (\<lambda>k. k - 1) mx) r) st1)"
  using assms by (subst (asm) set_m_Rep) (auto split: if_splits)

text \<open>What is left to read is always an end of what there was to read.\<close>

lemma m_suffix: "st' \<in> set (m r st) \<Longrightarrow> \<exists>w. fst st = w @ fst st'"
proof (induction r st arbitrary: st' rule: m.induct)
  case (1 C st)
  show ?case
  proof (cases "fst st")
    case Nil
    with 1 show ?thesis by simp
  next
    case (Cons c cs)
    with 1 have "fst st = [c] @ fst st'"
      by (auto split: if_splits)
    then show ?thesis by blast
  qed
next
  case (2 a b st)
  from "2.prems" obtain st1 where a: "st1 \<in> set (m a st)" and b: "st' \<in> set (m b st1)"
    by (auto simp: set_each)
  from "2.IH"(1) [OF a] "2.IH"(2) [OF b] show ?case by auto
next
  case (3 i r st)
  then show ?case by auto
next
  case (4 g mn mx r st)
  from "4.prems"(1) show ?case
  proof (cases rule: m_Rep_cases)
    case 1
    then show ?thesis by simp
  next
    case (2 st1)
    note False = 2(1) and a = 2(2) and c = 2(3) and b = 2(4)
    show ?thesis
    proof -
      from "4.IH"(1) [OF False a] have "\<exists>w. fst st = w @ fst st1"
        by (simp add: clear_def)
      moreover from "4.IH"(2) [OF False c b] have "\<exists>w. fst st1 = w @ fst st'"
        by simp
      ultimately show ?thesis by auto
    qed
  qed
qed

text \<open>A capture that the pattern has no group for stays as it is.\<close>

lemma m_captures: "st' \<in> set (m r st) \<Longrightarrow> i \<notin> groups r \<Longrightarrow> snd st' i = snd st i"
proof (induction r st arbitrary: st' rule: m.induct)
  case (1 C st)
  then show ?case by (auto split: list.splits if_splits)
next
  case (2 a b st)
  from "2.prems" obtain st1 where a: "st1 \<in> set (m a st)" and b: "st' \<in> set (m b st1)"
    by (auto simp: set_each)
  from "2.IH"(1) [OF a] "2.IH"(2) [OF b] "2.prems"(2) show ?case by auto
next
  case (3 j r st)
  then show ?case by auto
next
  case (4 g mn mx r st)
  from "4.prems"(1) show ?case
  proof (cases rule: m_Rep_cases)
    case 1
    then show ?thesis by simp
  next
    case (2 st1)
    note False = 2(1) and a = 2(2) and c = 2(3) and b = 2(4)
    show ?thesis
    proof -
      from "4.IH"(1) [OF False a] "4.prems"(2) have "snd st1 i = snd st i"
        by (simp add: clear_def)
      moreover from "4.IH"(2) [OF False c b] "4.prems"(2) have "snd st' i = snd st1 i"
        by simp
      ultimately show ?thesis by simp
    qed
  qed
qed

text \<open>The captures have no part in what is read.\<close>

lemma each_fst_cong:
  "map fst xs = map fst ys \<Longrightarrow> (\<And>x y. fst x = fst y \<Longrightarrow> map fst (f x) = map fst (h y)) \<Longrightarrow>
   map fst (each xs f) = map fst (each ys h)"
proof (induction xs arbitrary: ys)
  case Nil
  then show ?case by (simp add: each_simps)
next
  case (Cons x xs)
  from Cons.prems(1) obtain y ys' where ys: "ys = y # ys'" and xy: "fst x = fst y"
    and r: "map fst xs = map fst ys'"
    by (cases ys) auto
  from Cons.IH [OF r Cons.prems(2)] Cons.prems(2) [OF xy] show ?case
    by (simp add: ys each_simps)
qed

lemma m_fst: "fst st = fst st2 \<Longrightarrow> map fst (m r st) = map fst (m r st2)"
proof (induction r st arbitrary: st2 rule: m.induct)
  case (1 C st)
  then show ?case by (auto split: list.splits)
next
  case (2 a b st)
  show ?case
    unfolding m.simps
  proof (rule each_fst_cong)
    show "map fst (m a st) = map fst (m a st2)"
      by (rule "2.IH"(1) [OF "2.prems"])
    show "map fst (m b x) = map fst (m b y)" if "fst x = fst y" for x y
      using that by (rule "2.IH"(2))
  qed
next
  case (3 i r st)
  from "3.IH" [OF "3.prems"] show ?case
    by (simp add: comp_def)
next
  case (4 g mn mx r st)
  show ?case
  proof (cases "mx = Some 0")
    case True
    then show ?thesis using "4.prems" by (simp add: m_Rep_done)
  next
    case False
    have c: "fst (clear (groups r) st) = fst (clear (groups r) st2)"
      using "4.prems" by (simp add: clear_def)
    have 1: "map fst (m r (clear (groups r) st)) = map fst (m r (clear (groups r) st2))"
      by (rule "4.IH"(1) [OF False c])
    show ?thesis
    proof (cases "0 < mn")
      case True
      have "map fst (each (m r (clear (groups r) st))
                (\<lambda>st'. m (Rep g (mn - 1) (map_option (\<lambda>k. k - 1) mx) r) st'))
          = map fst (each (m r (clear (groups r) st2))
                (\<lambda>st'. m (Rep g (mn - 1) (map_option (\<lambda>k. k - 1) mx) r) st'))"
      proof (rule each_fst_cong [OF 1])
        show "map fst (m (Rep g (mn - 1) (map_option (\<lambda>k. k - 1) mx) r) x)
            = map fst (m (Rep g (mn - 1) (map_option (\<lambda>k. k - 1) mx) r) y)"
          if "fst x = fst y" for x y
          using True that by (intro "4.IH"(2) [OF False]) auto
      qed
      then show ?thesis
        by (simp only: m_Rep_least [OF True False])
    next
      case z: False
      then have mn: "mn = 0" by simp
      have e: "map fst (each (m r (clear (groups r) st))
                (\<lambda>st'. if length (fst st) \<le> length (fst st') then []
                       else m (Rep g 0 (map_option (\<lambda>k. k - 1) mx) r) st'))
          = map fst (each (m r (clear (groups r) st2))
                (\<lambda>st'. if length (fst st2) \<le> length (fst st') then []
                       else m (Rep g 0 (map_option (\<lambda>k. k - 1) mx) r) st'))"
      proof (rule each_fst_cong [OF 1])
        show "map fst (if length (fst st) \<le> length (fst x) then []
                       else m (Rep g 0 (map_option (\<lambda>k. k - 1) mx) r) x)
            = map fst (if length (fst st2) \<le> length (fst y) then []
                       else m (Rep g 0 (map_option (\<lambda>k. k - 1) mx) r) y)"
          if xy: "fst x = fst y" for x y
        proof (cases "length (fst st) \<le> length (fst x)")
          case True
          with xy "4.prems" show ?thesis by simp
        next
          case False
          then have "\<not> (mn = 0 \<and> length (fst st) \<le> length (fst x))" by simp
          from "4.IH"(2) [OF \<open>mx \<noteq> Some 0\<close> this xy] False xy "4.prems" mn
          show ?thesis by simp
        qed
      qed
      note nz = \<open>mx \<noteq> Some 0\<close>
      show ?thesis
      proof (cases g)
        case True
        with e "4.prems" show ?thesis
          by (simp add: mn m_Rep_greedy [OF nz] cong: if_cong)
      next
        case False
        with e "4.prems" show ?thesis
          by (simp add: mn m_Rep_lazy [OF nz] cong: if_cong)
      qed
    qed
  qed
qed

lemma m_rests: "map fst (m r (s, c)) = rests r s"
  unfolding rests_def by (rule m_fst) simp


subsection \<open>What a pattern can leave unread\<close>

lemma rests_Class:
  "rests (Class C) s = (case s of [] \<Rightarrow> [] | c # cs \<Rightarrow> if C c then [cs] else [])"
  by (simp add: rests_def split: list.split)

lemma rests_Seq: "rests (Seq a b) s = each (rests a s) (\<lambda>s'. rests b s')"
proof -
  have "rests (Seq a b) s = each (m a (s, \<lambda>_. None)) (\<lambda>x. map fst (m b x))"
    by (simp add: rests_def map_each)
  also have "\<dots> = each (m a (s, \<lambda>_. None)) (\<lambda>x. rests b (fst x))"
    by (rule each_cong) (auto simp: m_rests)
  also have "\<dots> = each (rests a s) (\<lambda>s'. rests b s')"
    by (simp add: rests_def each_map)
  finally show ?thesis .
qed

lemma rests_Group: "rests (Group i r) s = rests r s"
  by (simp add: rests_def comp_def)

lemma set_rests: "set (rests r s) = fst ` set (m r (s, c))"
  by (simp add: m_rests [symmetric, of r s c])

lemma set_rests_Seq: "set (rests (Seq a b) s) = (\<Union>s'\<in>set (rests a s). set (rests b s'))"
  by (simp add: rests_Seq set_each)

lemma fst_UN_m:
  "fst ` (\<Union>st1\<in>set xs. if P (fst st1) then {} else set (m R st1))
     = (\<Union>s1\<in>fst ` set xs. if P s1 then {} else set (rests R s1))"
proof (intro set_eqI iffI)
  fix t
  assume "t \<in> fst ` (\<Union>st1\<in>set xs. if P (fst st1) then {} else set (m R st1))"
  then obtain st1 c' where 1: "st1 \<in> set xs" "\<not> P (fst st1)" "(t, c') \<in> set (m R st1)"
    by (auto split: if_splits)
  from 1(3) have "t \<in> fst ` set (m R (fst st1, snd st1))" by force
  then have "t \<in> set (rests R (fst st1))" by (simp only: set_rests [symmetric])
  with 1 show "t \<in> (\<Union>s1\<in>fst ` set xs. if P s1 then {} else set (rests R s1))"
    by auto
next
  fix t
  assume "t \<in> (\<Union>s1\<in>fst ` set xs. if P s1 then {} else set (rests R s1))"
  then obtain st1 where 1: "st1 \<in> set xs" "\<not> P (fst st1)" "t \<in> set (rests R (fst st1))"
    by (auto split: if_splits)
  from 1(3) have "t \<in> fst ` set (m R (fst st1, snd st1))"
    by (simp only: set_rests [symmetric])
  then obtain c' where "(t, c') \<in> set (m R st1)" by auto
  with 1 show "t \<in> fst ` (\<Union>st1\<in>set xs. if P (fst st1) then {} else set (m R st1))"
    by force
qed

lemma set_rests_Rep:
  "set (rests (Rep g mn mx r) s) =
     (if mx = Some 0 then {s}
      else (if mn = 0 then {s} else {}) \<union>
        (\<Union>s1\<in>set (rests r s).
           if mn = 0 \<and> length s \<le> length s1 then {}
           else set (rests (Rep g (mn - 1) (map_option (\<lambda>k. k - 1) mx) r) s1)))"
proof -
  let ?st = "(s, \<lambda>_. None) :: mstate"
  have "map fst (m r (clear (groups r) ?st)) = rests r s"
    unfolding rests_def by (rule m_fst) (simp add: clear_def)
  then have a: "set (rests r s) = fst ` set (m r (clear (groups r) ?st))"
    by (simp flip: set_map)
  define R where "R = Rep g (mn - 1) (map_option (\<lambda>k. k - 1) mx) r"
  define P where "P = (\<lambda>s1 :: jsstring. mn = 0 \<and> length s \<le> length s1)"
  have step: "set (m (Rep g mn mx r) ?st) =
     (if mx = Some 0 then {?st}
      else (if mn = 0 then {?st} else {}) \<union>
        (\<Union>st1\<in>set (m r (clear (groups r) ?st)). if P (fst st1) then {} else set (m R st1)))"
    unfolding R_def P_def by (subst set_m_Rep) (simp only: fst_conv)
  have "set (rests (Rep g mn mx r) s) = fst ` set (m (Rep g mn mx r) ?st)"
    by (rule set_rests)
  also have "\<dots> = (if mx = Some 0 then {s}
      else (if mn = 0 then {s} else {}) \<union>
        (\<Union>s1\<in>set (rests r s). if P s1 then {} else set (rests R s1)))"
  proof (cases "mx = Some 0")
    case True
    then show ?thesis unfolding step by simp
  next
    case False
    have i: "fst ` ((if mn = 0 then {?st} else {}) \<union> U) = (if mn = 0 then {s} else {}) \<union> fst ` U"
      for U :: "mstate set"
      by auto
    from False show ?thesis
      unfolding step by (simp only: if_False i fst_UN_m a)
  qed
  finally show ?thesis
    unfolding R_def P_def .
qed

lemma rests_Rep_Class:
  assumes "\<And>h. mx = Some h \<Longrightarrow> mn \<le> h"
  shows "(t \<in> set (rests (Rep g mn mx (Class C)) s))
       = (\<exists>w. s = w @ t \<and> list_all C w \<and> mn \<le> length w \<and> (\<forall>h. mx = Some h \<longrightarrow> length w \<le> h))"
  using assms
proof (induction s arbitrary: mn mx)
  case Nil
  show ?case
    using Nil by (subst set_rests_Rep) (auto simp: rests_Class)
next
  case (Cons c cs)
  show ?case
  proof (cases "mx = Some 0")
    case True
    with Cons.prems show ?thesis
      by (subst set_rests_Rep) auto
  next
    case nz: False
    show ?thesis
    proof (cases "C c")
      case False
      have "(\<exists>w. c # cs = w @ t \<and> list_all C w \<and> mn \<le> length w \<and> (\<forall>h. mx = Some h \<longrightarrow> length w \<le> h))
          = (t = c # cs \<and> mn = 0)"
      proof
        assume "\<exists>w. c # cs = w @ t \<and> list_all C w \<and> mn \<le> length w \<and> (\<forall>h. mx = Some h \<longrightarrow> length w \<le> h)"
        then obtain w where w: "c # cs = w @ t" "list_all C w" "mn \<le> length w" by blast
        with False have "w = []" by (cases w) auto
        with w show "t = c # cs \<and> mn = 0" by simp
      next
        assume "t = c # cs \<and> mn = 0"
        then show "\<exists>w. c # cs = w @ t \<and> list_all C w \<and> mn \<le> length w \<and> (\<forall>h. mx = Some h \<longrightarrow> length w \<le> h)"
          by (intro exI [of _ "[]"]) simp
      qed
      with False nz show ?thesis
        by (subst set_rests_Rep) (auto simp: rests_Class)
    next
      case True
      let ?mx' = "map_option (\<lambda>k. k - 1) mx"
      have p: "\<And>h. ?mx' = Some h \<Longrightarrow> mn - 1 \<le> h"
        using Cons.prems by (cases mx) auto
      have l: "(t \<in> set (rests (Rep g mn mx (Class C)) (c # cs)))
          = (t = c # cs \<and> mn = 0 \<or> t \<in> set (rests (Rep g (mn - 1) ?mx' (Class C)) cs))"
        using True nz by (subst set_rests_Rep) (auto simp: rests_Class)
      have r: "(\<exists>w. c # cs = w @ t \<and> list_all C w \<and> mn \<le> length w \<and> (\<forall>h. mx = Some h \<longrightarrow> length w \<le> h))
          = (t = c # cs \<and> mn = 0 \<or>
             (\<exists>w. cs = w @ t \<and> list_all C w \<and> mn - 1 \<le> length w \<and> (\<forall>h. ?mx' = Some h \<longrightarrow> length w \<le> h)))"
        (is "?A = (?B \<or> ?D)")
      proof
        assume ?A
        then obtain w where w: "c # cs = w @ t" "list_all C w" "mn \<le> length w"
          "\<forall>h. mx = Some h \<longrightarrow> length w \<le> h" by blast
        show "?B \<or> ?D"
        proof (cases w)
          case Nil
          with w show ?thesis by simp
        next
          case (Cons d w')
          with w have "cs = w' @ t \<and> list_all C w' \<and> mn - 1 \<le> length w'
              \<and> (\<forall>h. ?mx' = Some h \<longrightarrow> length w' \<le> h)"
            by (cases mx) auto
          then show ?thesis by blast
        qed
      next
        assume "?B \<or> ?D"
        then show ?A
        proof
          assume ?B
          then show ?A by (intro exI [of _ "[]"]) simp
        next
          assume ?D
          then obtain w where w: "cs = w @ t" "list_all C w" "mn - 1 \<le> length w"
            "\<forall>h. ?mx' = Some h \<longrightarrow> length w \<le> h" by blast
          have "c # cs = (c # w) @ t \<and> list_all C (c # w) \<and> mn \<le> length (c # w)
              \<and> (\<forall>h. mx = Some h \<longrightarrow> length (c # w) \<le> h)"
            using w True nz by (cases mx) auto
          then show ?A by blast
        qed
      qed
      from Cons.IH [OF p] show ?thesis
        by (simp only: l r)
    qed
  qed
qed

subsection \<open>Membership in what a pattern leaves\<close>

lemma regexp_test_rests: "regexp_test r s = ([] \<in> set (rests r s))"
proof -
  have "regexp_test r s = (\<exists>st\<in>set (m r (s, \<lambda>_. None)). fst st = [])"
    by (force simp: regexp_test_def regexp_exec_def find_None_iff)
  also have "\<dots> = ([] \<in> fst ` set (m r (s, \<lambda>_. None)))"
    by force
  finally show ?thesis by (simp only: set_rests [symmetric])
qed

lemma in_rests_Class: "(t \<in> set (rests (Class C) s)) = (\<exists>c. s = c # t \<and> C c)"
  by (auto simp: rests_Class split: list.splits)

lemma in_rests_Seq:
  "(t \<in> set (rests (Seq a b) s)) = (\<exists>s'. s' \<in> set (rests a s) \<and> t \<in> set (rests b s'))"
  by (auto simp: set_rests_Seq)

lemma in_rests_Group: "(t \<in> set (rests (Group i r) s)) = (t \<in> set (rests r s))"
  by (simp add: rests_Group)

lemma rests_Rep_zero: "set (rests (Rep g mn (Some 0) r) s) = {s}"
  by (subst set_rests_Rep) simp

lemma in_rests_Opt:
  "(t \<in> set (rests (Opt r) s)) = (t = s \<or> (t \<in> set (rests r s) \<and> length t < length s))"
  by (subst set_rests_Rep) (auto simp: rests_Rep_zero split: if_splits)

lemma in_rests_Star:
  "(t \<in> set (rests (Star r) s))
     = (t = s \<or> (\<exists>s1\<in>set (rests r s). length s1 < length s \<and> t \<in> set (rests (Star r) s1)))"
  by (subst set_rests_Rep) (auto split: if_splits)

lemma in_rests_Between:
  "lo \<le> hi \<Longrightarrow> (t \<in> set (rests (Between lo hi (Class C)) s))
     = (\<exists>w. s = w @ t \<and> list_all C w \<and> lo \<le> length w \<and> length w \<le> hi)"
  by (subst rests_Rep_Class) auto

lemma in_rests_Plus:
  "(t \<in> set (rests (Plus (Class C)) s)) = (\<exists>w. s = w @ t \<and> list_all C w \<and> w \<noteq> [])"
  by (subst rests_Rep_Class) (auto simp: Suc_le_eq)

lemma in_rests_Star_Class:
  "(t \<in> set (rests (Star (Class C)) s)) = (\<exists>w. s = w @ t \<and> list_all C w)"
  by (subst rests_Rep_Class) auto

subsection \<open>split and join\<close>

lemma split_js_nonempty: "split_js sep s \<noteq> []"
  by (induction s) (auto split: list.splits)

lemma split_js_no_sep: "sep \<notin> set a \<Longrightarrow> split_js sep a = [a]"
  by (induction a) auto

lemma split_js_append: "sep \<notin> set a \<Longrightarrow> split_js sep (a @ sep # t) = a # split_js sep t"
  by (induction a) auto

lemma join_split_js: "join_js sep (split_js sep s) = s"
proof (induction s)
  case Nil
  then show ?case by simp
next
  case (Cons c s)
  obtain w ws where ws: "split_js sep s = w # ws"
    using split_js_nonempty [of sep s] by (cases "split_js sep s") auto
  with Cons show ?case by (cases ws) auto
qed

lemma split_js_parts: "w \<in> set (split_js sep s) \<Longrightarrow> sep \<notin> set w"
proof (induction s arbitrary: w)
  case Nil
  then show ?case by simp
next
  case (Cons c s)
  obtain v vs where vs: "split_js sep s = v # vs"
    using split_js_nonempty [of sep s] by (cases "split_js sep s") auto
  with Cons show ?case by (auto split: if_splits)
qed


subsection \<open>The shapes behind the two patterns of getCard\<close>

lemma in_rests_Exactly:
  "(t \<in> set (rests (Between n n (Class C)) s)) = (\<exists>w. s = w @ t \<and> list_all C w \<and> length w = n)"
  by (subst in_rests_Between) auto

lemma run_then_char:
  "(t \<in> set (rests (Seq (Between n n (Class C)) (Seq (Class (is_char k)) r)) s))
     = (\<exists>a u. s = a @ k # u \<and> length a = n \<and> list_all C a \<and> t \<in> set (rests r u))"
  unfolding in_rests_Seq in_rests_Exactly in_rests_Class is_char_def
  by (intro iffI; elim exE conjE; blast)

lemma uuid_match:
  "regexp_test uuidRegexp s =
     (\<exists>a b c d e. s = a @ 45 # b @ 45 # c @ 45 # d @ 45 # e
        \<and> length a = 8 \<and> length b = 4 \<and> length c = 4 \<and> length d = 4 \<and> length e = 12
        \<and> list_all is_lower_hex a \<and> list_all is_lower_hex b \<and> list_all is_lower_hex c
        \<and> list_all is_lower_hex d \<and> list_all is_lower_hex e)"
  (is "?L = ?R")
proof
  assume ?L
  then obtain a u1 where 1: "s = a @ 45 # u1" "length a = 8" "list_all is_lower_hex a"
    and "[] \<in> set (rests (Seq (Between 4 4 (Class is_lower_hex)) (Seq (Class (is_char 45))
    (Seq (Between 4 4 (Class is_lower_hex)) (Seq (Class (is_char 45))
    (Seq (Between 4 4 (Class is_lower_hex)) (Seq (Class (is_char 45))
         (Between 12 12 (Class is_lower_hex)))))))) u1)"
    unfolding regexp_test_rests uuidRegexp_def by (subst (asm) run_then_char) blast
  then obtain b u2 where 2: "u1 = b @ 45 # u2" "length b = 4" "list_all is_lower_hex b"
    and "[] \<in> set (rests (Seq (Between 4 4 (Class is_lower_hex)) (Seq (Class (is_char 45))
    (Seq (Between 4 4 (Class is_lower_hex)) (Seq (Class (is_char 45))
         (Between 12 12 (Class is_lower_hex)))))) u2)"
    by (subst (asm) run_then_char) blast
  then obtain c u3 where 3: "u2 = c @ 45 # u3" "length c = 4" "list_all is_lower_hex c"
    and "[] \<in> set (rests (Seq (Between 4 4 (Class is_lower_hex)) (Seq (Class (is_char 45))
         (Between 12 12 (Class is_lower_hex)))) u3)"
    by (subst (asm) run_then_char) blast
  then obtain d u4 where 4: "u3 = d @ 45 # u4" "length d = 4" "list_all is_lower_hex d"
    and "[] \<in> set (rests (Between 12 12 (Class is_lower_hex)) u4)"
    by (subst (asm) run_then_char) blast
  then have 5: "length u4 = 12" "list_all is_lower_hex u4"
    by (auto simp: in_rests_Exactly)
  from 1 2 3 4 5 show ?R by blast
next
  assume ?R
  then obtain a b c d e where s: "s = a @ 45 # b @ 45 # c @ 45 # d @ 45 # e"
    and l: "length a = 8" "length b = 4" "length c = 4" "length d = 4" "length e = 12"
    and h: "list_all is_lower_hex a" "list_all is_lower_hex b" "list_all is_lower_hex c"
      "list_all is_lower_hex d" "list_all is_lower_hex e"
    by blast
  have "[] \<in> set (rests (Between 12 12 (Class is_lower_hex)) e)"
    using l h by (simp add: in_rests_Exactly)
  then have "[] \<in> set (rests (Seq (Between 4 4 (Class is_lower_hex)) (Seq (Class (is_char 45))
         (Between 12 12 (Class is_lower_hex)))) (d @ 45 # e))"
    using l h by (subst run_then_char) blast
  then have "[] \<in> set (rests (Seq (Between 4 4 (Class is_lower_hex)) (Seq (Class (is_char 45))
    (Seq (Between 4 4 (Class is_lower_hex)) (Seq (Class (is_char 45))
         (Between 12 12 (Class is_lower_hex)))))) (c @ 45 # d @ 45 # e))"
    using l h by (subst run_then_char) blast
  then have "[] \<in> set (rests (Seq (Between 4 4 (Class is_lower_hex)) (Seq (Class (is_char 45))
    (Seq (Between 4 4 (Class is_lower_hex)) (Seq (Class (is_char 45))
    (Seq (Between 4 4 (Class is_lower_hex)) (Seq (Class (is_char 45))
         (Between 12 12 (Class is_lower_hex)))))))) (b @ 45 # c @ 45 # d @ 45 # e))"
    using l h by (subst run_then_char) blast
  then show ?L
    unfolding regexp_test_rests uuidRegexp_def s
    using l h by (subst run_then_char) blast
qed

lemma hex_no_dash: "list_all is_lower_hex a \<Longrightarrow> 45 \<notin> set a"
  by (auto simp: list_all_iff is_lower_hex_def is_digit_def)

lemma uuid_shape_iff: "regexp_test uuidRegexp s = uuid_shape s"
proof
  assume "regexp_test uuidRegexp s"
  then obtain a b c d e where s: "s = a @ 45 # b @ 45 # c @ 45 # d @ 45 # e"
    and l: "length a = 8" "length b = 4" "length c = 4" "length d = 4" "length e = 12"
    and h: "list_all is_lower_hex a" "list_all is_lower_hex b" "list_all is_lower_hex c"
      "list_all is_lower_hex d" "list_all is_lower_hex e"
    unfolding uuid_match by blast
  from h have "split_js 45 s = [a, b, c, d, e]"
    unfolding s by (simp add: split_js_append split_js_no_sep hex_no_dash)
  with l h show "uuid_shape s"
    by (simp add: uuid_shape_def)
next
  assume u: "uuid_shape s"
  then obtain a b c d e where p: "split_js 45 s = [a, b, c, d, e]"
    by (auto simp: uuid_shape_def split: list.splits)
  from join_split_js [of 45 s] have "s = a @ 45 # b @ 45 # c @ 45 # d @ 45 # e"
    unfolding p by simp
  moreover from u p have "length a = 8 \<and> length b = 4 \<and> length c = 4 \<and> length d = 4 \<and> length e = 12
        \<and> list_all is_lower_hex a \<and> list_all is_lower_hex b \<and> list_all is_lower_hex c
        \<and> list_all is_lower_hex d \<and> list_all is_lower_hex e"
    by (simp add: uuid_shape_def)
  ultimately show "regexp_test uuidRegexp s"
    unfolding uuid_match by blast
qed

lemma code_tail:
  "([] \<in> set (rests (Opt (Seq (Class (is_char 47)) (Opt (Between 2 3 (Class is_letter))))) u))
      = (u = [] \<or> u = [47] \<or> (\<exists>c. language_code c \<and> u = 47 # c))"
  unfolding in_rests_Opt in_rests_Seq in_rests_Class in_rests_Between [of 2 3, simplified]
    is_char_def language_code_def
  by auto

lemma code_match:
  "regexp_test codeNumberRegexp s =
     (\<exists>a b u. s = a @ 47 # b @ u \<and> set_code a \<and> b \<noteq> [] \<and> list_all is_nonslash b
        \<and> (u = [] \<or> u = [47] \<or> (\<exists>c. language_code c \<and> u = 47 # c)))"
  unfolding regexp_test_rests codeNumberRegexp_def
    in_rests_Seq [of _ "Between 3 5 (Class is_alnum)"] in_rests_Between [of 3 5, simplified]
    in_rests_Seq [of _ "Class (is_char 47)"] in_rests_Class
    in_rests_Seq [of _ "Plus (Class is_nonslash)"] in_rests_Plus code_tail
    set_code_def is_char_def
  by (intro iffI; elim exE conjE; blast)


lemma alnum_no_slash: "list_all is_alnum a \<Longrightarrow> 47 \<notin> set a"
  by (auto simp: list_all_iff is_alnum_def is_letter_def is_digit_def)

lemma letter_no_slash: "list_all is_letter a \<Longrightarrow> 47 \<notin> set a"
  by (auto simp: list_all_iff is_letter_def)

lemma nonslash_iff: "list_all is_nonslash b = (47 \<notin> set b)"
  by (auto simp: list_all_iff is_nonslash_def)

lemma code_shape_iff: "regexp_test codeNumberRegexp s = code_shape s"
proof
  assume "regexp_test codeNumberRegexp s"
  then obtain a b u where s: "s = a @ 47 # b @ u" and a: "set_code a" and b: "b \<noteq> []"
    "list_all is_nonslash b"
    and u: "u = [] \<or> u = [47] \<or> (\<exists>c. language_code c \<and> u = 47 # c)"
    unfolding code_match by blast
  from a have na: "47 \<notin> set a" by (simp add: set_code_def alnum_no_slash)
  from b have nb: "47 \<notin> set b" by (simp add: nonslash_iff)
  from u consider "u = []" | "u = [47]" | c where "language_code c" "u = 47 # c" by blast
  then show "code_shape s"
  proof cases
    case 1
    with na nb have "split_js 47 s = [a, b]"
      unfolding s by (simp add: split_js_append split_js_no_sep)
    with a b show ?thesis by (simp add: code_shape_def)
  next
    case 2
    with na nb have "split_js 47 s = [a, b, []]"
      unfolding s by (simp add: split_js_append)
    with a b show ?thesis by (simp add: code_shape_def)
  next
    case 3
    then have "47 \<notin> set c" by (simp add: language_code_def letter_no_slash)
    with 3 na nb have "split_js 47 s = [a, b, c]"
      unfolding s by (simp add: split_js_append split_js_no_sep)
    with a b 3 show ?thesis by (simp add: code_shape_def)
  qed
next
  assume c: "code_shape s"
  then consider a b where "split_js 47 s = [a, b]" | a b c where "split_js 47 s = [a, b, c]"
    by (auto simp: code_shape_def split: list.splits)
  then show "regexp_test codeNumberRegexp s"
  proof cases
    case 1
    from join_split_js [of 47 s] have s: "s = a @ 47 # b @ []" unfolding 1 by simp
    from split_js_parts [of b 47 s] have "list_all is_nonslash b"
      by (simp add: 1 nonslash_iff)
    with c 1 have "set_code a \<and> b \<noteq> [] \<and> list_all is_nonslash b \<and>
        ([] = [] \<or> [] = [47] \<or> (\<exists>c'. language_code c' \<and> [] = 47 # c'))"
      by (auto simp: code_shape_def)
    with s show ?thesis unfolding code_match by blast
  next
    case 2
    from join_split_js [of 47 s] have s: "s = a @ 47 # b @ 47 # c" unfolding 2 by simp
    from split_js_parts [of b 47 s] have "list_all is_nonslash b"
      by (simp add: 2 nonslash_iff)
    with c 2 have "set_code a \<and> b \<noteq> [] \<and> list_all is_nonslash b \<and>
        (47 # c = [] \<or> 47 # c = [47] \<or> (\<exists>c'. language_code c' \<and> 47 # c = 47 # c'))"
      by (auto simp: code_shape_def)
    with s show ?thesis unfolding code_match by blast
  qed
qed

lemma hex_no_slash: "list_all is_lower_hex a \<Longrightarrow> 47 \<notin> set a"
  by (auto simp: list_all_iff is_lower_hex_def is_digit_def)

lemma uuid_no_slash: "uuid_shape s \<Longrightarrow> 47 \<notin> set s"
proof -
  assume "uuid_shape s"
  then have "regexp_test uuidRegexp s" by (simp add: uuid_shape_iff)
  then obtain a b c d e where s: "s = a @ 45 # b @ 45 # c @ 45 # d @ 45 # e"
    and h: "list_all is_lower_hex a" "list_all is_lower_hex b" "list_all is_lower_hex c"
      "list_all is_lower_hex d" "list_all is_lower_hex e"
    unfolding uuid_match by blast
  from h show ?thesis
    unfolding s by (simp add: hex_no_slash)
qed

lemma code_has_slash: "code_shape s \<Longrightarrow> 47 \<in> set s"
proof -
  assume "code_shape s"
  then have "regexp_test codeNumberRegexp s" by (simp add: code_shape_iff)
  then show ?thesis unfolding code_match by auto
qed

lemmas shape_defs = uuid_shape_def code_shape_def code_shape_spec_def set_code_def
  language_code_def class_defs js_def reference_def

lemmas escape_defs = is_unreserved_def escaped_def percent_def utf8_def hex_digit_def
  is_high_surrogate_def is_low_surrogate_def SCRYFALL_API_URI_def cardCode_def validLanguages_def

text \<open>
  Claim C1 gives the set/number code shape as 3 to 5 alphanumerics, a slash, a token
  without a slash, and optionally a slash with 2 or 3 letters, and sends every other name
  to the fuzzy lookup. The name \<^verbatim>\<open>m3c/331/\<close> is not of that shape, yet the pattern of
  the source accepts it (its last group is \<^verbatim>\<open>(?:\/(?:[a-zA-Z]{2,3})?)?\<close>) and the request
  is the direct one; the tests of the repository look this very name up.
\<close>

theorem requestURI_trailing_slash_counterexample:
  "\<not> uuid_shape (js ''m3c/331/'') \<and> \<not> code_shape_spec (js ''m3c/331/'')
   \<and> requestURI (reference ''m3c/331/'' None) = Inr (js ''https://api.scryfall.com/cards/m3c/331/'')
   \<and> map_sum id (\<lambda>q. SCRYFALL_API_URI @ js ''/cards/named/?fuzzy='' @ q)
        (encodeURIComponent (js ''m3c/331/''))
       = Inr (js ''https://api.scryfall.com/cards/named/?fuzzy=m3c%2F331%2F'')"
proof -
  have 1: "\<not> uuid_shape (js ''m3c/331/'')" "\<not> code_shape_spec (js ''m3c/331/'')"
    by (simp_all add: shape_defs)
  have 2: "requestURI (reference ''m3c/331/'' None) = Inr (js ''https://api.scryfall.com/cards/m3c/331/'')"
    by (simp add: request_defs m.simps)
  have 3: "map_sum id (\<lambda>q. SCRYFALL_API_URI @ js ''/cards/named/?fuzzy='' @ q)
        (encodeURIComponent (js ''m3c/331/''))
       = Inr (js ''https://api.scryfall.com/cards/named/?fuzzy=m3c%2F331%2F'')"
    by (simp add: js_def escape_defs class_defs)
  from 1 2 3 show ?thesis by blast
qed

text \<open>
  Claim C1, amended. The request of \<^verbatim>\<open>getCard\<close> is chosen on the name in this order: a
  name of the unique-identifier shape gives \<^verbatim>\<open>/cards/{name}\<close>; else a name of the
  set/number code shape, where the second slash may also come with nothing after it, gives
  \<^verbatim>\<open>/cards/{code}\<close>, the code being the name or the name with its language segment
  replaced; any other name gives \<^verbatim>\<open>/cards/named/?fuzzy=\<close> with the name escaped (and
  no request when the name cannot be escaped).
\<close>

theorem requestURI_strategy:
  "requestURI parsedCard =
     (if uuid_shape (name parsedCard)
      then Inr (SCRYFALL_API_URI @ js ''/cards/'' @ name parsedCard)
      else if code_shape (name parsedCard)
      then Inr (SCRYFALL_API_URI @ js ''/cards/'' @ cardCode parsedCard)
      else map_sum id (\<lambda>q. SCRYFALL_API_URI @ js ''/cards/named/?fuzzy='' @ q)
             (encodeURIComponent (name parsedCard)))"
  by (simp add: requestURI_def uuid_shape_iff code_shape_iff)

theorem requestURI_strategy_witness:
  "uuid_shape (js ''56ebc372-aabd-4174-a943-c7bf59e5028d'')
   \<and> requestURI (reference ''56ebc372-aabd-4174-a943-c7bf59e5028d'' None)
       = Inr (js ''https://api.scryfall.com/cards/56ebc372-aabd-4174-a943-c7bf59e5028d'')
   \<and> \<not> uuid_shape (js ''leb/233'') \<and> code_shape (js ''leb/233'')
   \<and> requestURI (reference ''leb/233'' None) = Inr (js ''https://api.scryfall.com/cards/leb/233'')
   \<and> \<not> uuid_shape (js ''bLAc lOTus'') \<and> \<not> code_shape (js ''bLAc lOTus'')
   \<and> requestURI (reference ''bLAc lOTus'' None)
       = Inr (js ''https://api.scryfall.com/cards/named/?fuzzy=bLAc%20lOTus'')"
proof -
  have 1: "uuid_shape (js ''56ebc372-aabd-4174-a943-c7bf59e5028d'')"
    by (simp add: shape_defs)
  have 2: "\<not> uuid_shape (js ''leb/233'')" "code_shape (js ''leb/233'')"
    by (simp_all add: shape_defs)
  have 3: "\<not> uuid_shape (js ''bLAc lOTus'')" "\<not> code_shape (js ''bLAc lOTus'')"
    by (simp_all add: shape_defs)
  have a: "requestURI (reference ''56ebc372-aabd-4174-a943-c7bf59e5028d'' None)
       = Inr (js ''https://api.scryfall.com/cards/56ebc372-aabd-4174-a943-c7bf59e5028d'')"
    using requestURI_strategy [of "reference ''56ebc372-aabd-4174-a943-c7bf59e5028d'' None"] 1
    by (simp add: reference_def js_def SCRYFALL_API_URI_def)
  have b: "requestURI (reference ''leb/233'' None) = Inr (js ''https://api.scryfall.com/cards/leb/233'')"
    using requestURI_strategy [of "reference ''leb/233'' None"] 2
    by (simp add: reference_def js_def escape_defs)
  have c: "requestURI (reference ''bLAc lOTus'' None)
       = Inr (js ''https://api.scryfall.com/cards/named/?fuzzy=bLAc%20lOTus'')"
    using requestURI_strategy [of "reference ''bLAc lOTus'' None"] 3
    by (simp add: reference_def js_def escape_defs class_defs)
  from 1 2 3 a b c show ?thesis by blast
qed

text \<open>
  Claim C5. For a name of the set/number code shape and a recognized language, the request
  is made of the first two components of the name between slashes and the language as the
  third; what the name had after its second component is left out.
\<close>

theorem requestURI_language_override:
  assumes "code_shape (name parsedCard)"
    and "language parsedCard = Some l" and "l \<in> set validLanguages"
  shows "\<exists>a b rest. split_js 47 (name parsedCard) = a # b # rest \<and> length rest \<le> 1
     \<and> requestURI parsedCard = Inr (SCRYFALL_API_URI @ js ''/cards/'' @ a @ js ''/'' @ b @ js ''/'' @ l)"
proof -
  from assms(1) have "\<not> uuid_shape (name parsedCard)"
    using uuid_no_slash code_has_slash by blast
  with assms have r: "requestURI parsedCard
      = Inr (SCRYFALL_API_URI @ js ''/cards/'' @
             join_js 47 (take 2 (split_js 47 (name parsedCard))) @ js ''/'' @ l)"
    by (simp add: requestURI_def uuid_shape_iff code_shape_iff cardCode_def)
  from assms(1) obtain a b rest where p: "split_js 47 (name parsedCard) = a # b # rest"
    and "length rest \<le> 1"
    by (auto simp: code_shape_def split: list.splits)
  moreover have "join_js 47 (take 2 (a # b # rest)) = a @ js ''/'' @ b"
    by (simp add: js_def)
  ultimately show ?thesis
    using r by auto
qed

theorem requestURI_language_override_witness:
  "code_shape (name (reference ''m3c/331/de'' (Some ''fr'')))
   \<and> language (reference ''m3c/331/de'' (Some ''fr'')) = Some (js ''fr'')
   \<and> js ''fr'' \<in> set validLanguages
   \<and> requestURI (reference ''m3c/331/de'' (Some ''fr''))
       = Inr (js ''https://api.scryfall.com/cards/m3c/331/fr'')"
proof -
  have 1: "code_shape (name (reference ''m3c/331/de'' (Some ''fr'')))"
    by (simp add: shape_defs)
  have 2: "language (reference ''m3c/331/de'' (Some ''fr'')) = Some (js ''fr'')"
    by (simp add: reference_def)
  have 3: "js ''fr'' \<in> set validLanguages"
    by (simp add: validLanguages_def js_def)
  have 4: "split_js 47 (name (reference ''m3c/331/de'' (Some ''fr''))) = [js ''m3c'', js ''331'', js ''de'']"
    by (simp add: reference_def js_def)
  from requestURI_language_override [OF 1 2 3] 4
  have "requestURI (reference ''m3c/331/de'' (Some ''fr''))
       = Inr (js ''https://api.scryfall.com/cards/m3c/331/fr'')"
    by (auto simp: js_def SCRYFALL_API_URI_def)
  with 1 2 3 show ?thesis by blast
qed

section \<open>Properties of the parser\<close>

lemma regexp_tailPart: "regexp = Seq quantityPrefix tailPart"
  by (simp add: regexp_def tailPart_def)

subsection \<open>The first way through\<close>

lemma find_app:
  "find P (xs @ ys) = (case find P xs of None \<Rightarrow> find P ys | Some x \<Rightarrow> Some x)"
  by (induction xs) auto

lemma find_each:
  "find P (each xs f) =
     (case find (\<lambda>x. \<exists>y\<in>set (f x). P y) xs of None \<Rightarrow> None | Some x \<Rightarrow> find P (f x))"
proof (induction xs)
  case Nil
  then show ?case by (simp add: each_simps)
next
  case (Cons x xs)
  show ?case
  proof (cases "\<exists>y\<in>set (f x). P y")
    case True
    then obtain y where "find P (f x) = Some y"
      by (cases "find P (f x)") (auto simp: find_None_iff)
    with True show ?thesis by (simp add: each_simps find_app)
  next
    case False
    then have "find P (f x) = None" by (simp add: find_None_iff)
    with False Cons show ?thesis by (simp add: each_simps find_app)
  qed
qed

lemma m_no_groups:
  assumes "groups r = {}"
  shows "m r (s, c) = map (\<lambda>t. (t, c)) (rests r s)"
proof -
  have "snd st = c" if "st \<in> set (m r (s, c))" for st
  proof
    fix i
    from m_captures [OF that, of i] assms show "snd st i = c i" by simp
  qed
  then have "map (\<lambda>st. (fst st, c)) (m r (s, c)) = map (\<lambda>st. st) (m r (s, c))"
    by (intro map_cong) (auto simp: prod_eq_iff)
  then show ?thesis
    by (simp add: m_rests [symmetric, of r s c] comp_def)
qed

lemma m_Opt:
  "m (Opt r) st = filter (\<lambda>st'. length (fst st') < length (fst st)) (m r (clear (groups r) st)) @ [st]"
proof -
  have "each xs (\<lambda>st'. if length (fst st) \<le> length (fst st') then [] else [st'])
      = filter (\<lambda>st'. length (fst st') < length (fst st)) xs" for xs :: "mstate list"
    by (induction xs) (auto simp: each_simps)
  then show ?thesis
    by (subst m_Rep_greedy) (simp_all add: m_Rep_done cong: if_cong)
qed


subsection \<open>The quantity prefix\<close>

lemma space_not_digit: "is_space c \<Longrightarrow> \<not> is_digit c"
  by (auto simp: is_space_def is_digit_def is_line_terminator_def)

lemma takeWhile_stop:
  "list_all P w \<Longrightarrow> \<not> P c \<Longrightarrow> takeWhile P (w @ c # t) = w \<and> dropWhile P (w @ c # t) = c # t"
  by (induction w) auto

lemma prefix_body:
  "(st1 \<in> set (m (Seq (Group 1 (Plus (Class is_digit))) (Plus (Class is_space))) (s, c)))
     = (\<exists>w v. s = w @ v @ fst st1 \<and> w \<noteq> [] \<and> list_all is_digit w \<and> v \<noteq> [] \<and> list_all is_space v
          \<and> snd st1 = c(1 := Some w))"
  (is "?L = ?R")
proof -
  have A: "m (Group 1 (Plus (Class is_digit))) (s, c)
      = map (\<lambda>t. (t, c(1 := Some (take (length s - length t) s)))) (rests (Plus (Class is_digit)) s)"
    by (simp add: m_no_groups comp_def)
  have B: "m (Plus (Class is_space)) (t, c') = map (\<lambda>t'. (t', c')) (rests (Plus (Class is_space)) t)"
    for t c'
    by (simp add: m_no_groups)
  have "?L = (\<exists>st'\<in>set (m (Group 1 (Plus (Class is_digit))) (s, c)).
      st1 \<in> set (m (Plus (Class is_space)) st'))"
    by (simp only: m.simps(2) set_each UN_iff)
  also have "\<dots> = (\<exists>t\<in>set (rests (Plus (Class is_digit)) s).
      st1 \<in> set (m (Plus (Class is_space)) (t, c(1 := Some (take (length s - length t) s)))))"
    unfolding A by (simp only: set_map bex_simps(7))
  also have "\<dots> = (\<exists>t\<in>set (rests (Plus (Class is_digit)) s). \<exists>t'\<in>set (rests (Plus (Class is_space)) t).
      st1 = (t', c(1 := Some (take (length s - length t) s))))"
    unfolding B by (simp only: set_map image_iff)
  also have "\<dots> = ?R"
  proof
    assume "\<exists>t\<in>set (rests (Plus (Class is_digit)) s). \<exists>t'\<in>set (rests (Plus (Class is_space)) t).
      st1 = (t', c(1 := Some (take (length s - length t) s)))"
    then obtain t t' where t: "t \<in> set (rests (Plus (Class is_digit)) s)"
      and t': "t' \<in> set (rests (Plus (Class is_space)) t)"
      and st1: "st1 = (t', c(1 := Some (take (length s - length t) s)))"
      by blast
    from t obtain w where w: "s = w @ t" "list_all is_digit w" "w \<noteq> []"
      unfolding in_rests_Plus by blast
    from t' obtain v where v: "t = v @ t'" "list_all is_space v" "v \<noteq> []"
      unfolding in_rests_Plus by blast
    from w v st1 have "s = w @ v @ fst st1 \<and> w \<noteq> [] \<and> list_all is_digit w \<and> v \<noteq> []
        \<and> list_all is_space v \<and> snd st1 = c(1 := Some w)"
      by simp
    then show ?R by blast
  next
    assume ?R
    then obtain w v where s: "s = w @ v @ fst st1" and w: "w \<noteq> []" "list_all is_digit w"
      and v: "v \<noteq> []" "list_all is_space v" and c: "snd st1 = c(1 := Some w)"
      by blast
    from s w have 1: "v @ fst st1 \<in> set (rests (Plus (Class is_digit)) s)"
      unfolding in_rests_Plus by blast
    from v have 2: "fst st1 \<in> set (rests (Plus (Class is_space)) (v @ fst st1))"
      unfolding in_rests_Plus by blast
    have "st1 = (fst st1, c(1 := Some (take (length s - length (v @ fst st1)) s)))"
      using c s by (simp add: prod_eq_iff)
    with 1 2 show "\<exists>t\<in>set (rests (Plus (Class is_digit)) s). \<exists>t'\<in>set (rests (Plus (Class is_space)) t).
      st1 = (t', c(1 := Some (take (length s - length t) s)))"
      by blast
  qed
  finally show ?thesis .
qed

lemma quantity_prefixE:
  assumes "quantity_prefix s"
  obtains d x where "dropWhile is_digit s = d # x" and "is_space d"
    and "takeWhile is_digit s \<noteq> []" and "s = takeWhile is_digit s @ d # x"
proof -
  from assms obtain d x where d: "dropWhile is_digit s = d # x" "is_space d"
    and n: "takeWhile is_digit s \<noteq> []"
    by (auto simp: quantity_prefix_def split: list.splits)
  have "takeWhile is_digit s @ dropWhile is_digit s = s"
    by (rule takeWhile_dropWhile_id)
  then have s: "s = takeWhile is_digit s @ d # x"
    unfolding d(1) by (rule sym)
  show thesis
    by (rule that [OF d n s])
qed

lemma digits_takeWhile: "list_all is_digit (takeWhile is_digit s)"
  by (induction s) auto

lemma quantityPrefix_states:
  "\<exists>T. m quantityPrefix (s, \<lambda>_. None) = T @ [(s, \<lambda>_. None)]
     \<and> (\<forall>st1\<in>set T. quantity_prefix s \<and> snd st1 1 = Some (takeWhile is_digit s))
     \<and> (quantity_prefix s \<longrightarrow>
          (tl (dropWhile is_digit s), (\<lambda>_. None)(1 := Some (takeWhile is_digit s))) \<in> set T)"
proof -
  let ?c = "(\<lambda>_. None) :: captures"
  let ?R = "Seq (Group 1 (Plus (Class is_digit))) (Plus (Class is_space))"
  let ?T = "filter (\<lambda>st'. length (fst st') < length s) (m ?R (s, ?c))"
  have cl: "clear (groups ?R) (s, ?c) = (s, ?c)"
    by (simp add: clear_def fun_eq_iff)
  have 1: "m quantityPrefix (s, ?c) = ?T @ [(s, ?c)]"
    unfolding quantityPrefix_def m_Opt cl by (simp only: fst_conv)
  have 2: "quantity_prefix s \<and> snd st1 1 = Some (takeWhile is_digit s)" if "st1 \<in> set ?T" for st1
  proof -
    from that have "st1 \<in> set (m ?R (s, ?c))" by (simp only: set_filter mem_Collect_eq)
    then obtain w v where s: "s = w @ v @ fst st1" and w: "w \<noteq> []" "list_all is_digit w"
      and v: "v \<noteq> []" "list_all is_space v" and c: "snd st1 = ?c(1 := Some w)"
      unfolding prefix_body by blast
    from v obtain d v' where d: "v = d # v'" "is_space d" by (cases v) auto
    from takeWhile_stop [OF w(2) space_not_digit [OF d(2)], of "v' @ fst st1"]
    have "takeWhile is_digit s = w" "dropWhile is_digit s = d # v' @ fst st1"
      unfolding s d by simp_all
    with w d c show ?thesis by (simp add: quantity_prefix_def)
  qed
  have 3: "(tl (dropWhile is_digit s), ?c(1 := Some (takeWhile is_digit s))) \<in> set ?T"
    if "quantity_prefix s"
  proof -
    from that obtain d x where d: "dropWhile is_digit s = d # x" "is_space d"
      and n: "takeWhile is_digit s \<noteq> []" and s: "s = takeWhile is_digit s @ d # x"
      by (rule quantity_prefixE)
    let ?ds = "takeWhile is_digit s"
    have "s = ?ds @ [d] @ fst (x, ?c(1 := Some ?ds)) \<and> ?ds \<noteq> [] \<and> list_all is_digit ?ds \<and> [d] \<noteq> []
          \<and> list_all is_space [d] \<and> snd (x, ?c(1 := Some ?ds)) = ?c(1 := Some ?ds)"
      using s n d(2) digits_takeWhile [of s] by simp
    then have "\<exists>w v. s = w @ v @ fst (x, ?c(1 := Some ?ds)) \<and> w \<noteq> [] \<and> list_all is_digit w \<and> v \<noteq> []
          \<and> list_all is_space v \<and> snd (x, ?c(1 := Some ?ds)) = ?c(1 := Some w)"
      by (intro exI [of _ ?ds] exI [of _ "[d]"])
    then have "(x, ?c(1 := Some ?ds)) \<in> set (m ?R (s, ?c))"
      unfolding prefix_body .
    moreover have "length x < length s"
      by (subst s) simp
    ultimately have "(x, ?c(1 := Some ?ds)) \<in> set ?T"
      by (simp only: set_filter mem_Collect_eq fst_conv simp_thms)
    then show ?thesis unfolding d(1) by (simp only: list.sel)
  qed
  from 1 2 3 show ?thesis by blast
qed


subsection \<open>The name and the flags\<close>

lemma star_ok_Nil: "star_ok []"
  unfolding star_ok_def by (subst in_rests_Star) simp

lemma flagsPart_end: "([] \<in> set (rests flagsPart f)) = star_ok f"
  unfolding flagsPart_def in_rests_Opt in_rests_Group star_ok_def [symmetric]
  using star_ok_Nil by auto

lemma in_rests_LazyStar_Class:
  "(t \<in> set (rests (LazyStar (Class C)) s)) = (\<exists>w. s = w @ t \<and> list_all C w)"
  by (subst rests_Rep_Class) auto

lemma tail_ok_iff: "tail_ok x = (\<exists>p f. x = p @ f \<and> list_all is_dot p \<and> star_ok f)"
  unfolding tail_ok_def tailPart_def in_rests_Seq in_rests_Group in_rests_LazyStar_Class
    flagsPart_end
  by blast

lemma tail_succeeds: "(\<exists>st\<in>set (m tailPart st1). fst st = []) = tail_ok (fst st1)"
proof -
  have "(\<exists>st\<in>set (m tailPart st1). fst st = []) = ([] \<in> fst ` set (m tailPart (fst st1, snd st1)))"
    by force
  then show ?thesis
    by (simp only: set_rests [symmetric] tail_ok_def)
qed

lemma dot_facts: "is_dot 45" "is_dot 61" "is_letter c \<Longrightarrow> is_dot c" "is_nonspace c \<Longrightarrow> is_dot c"
  by (auto simp: is_dot_def is_line_terminator_def is_letter_def is_nonspace_def is_space_def)

lemma list_all_dot: "list_all is_letter n \<Longrightarrow> list_all is_dot n"
  "list_all is_nonspace v \<Longrightarrow> list_all is_dot v"
  by (auto simp: list_all_iff dot_facts)

lemma flagToken_step:
  "(t \<in> set (rests flagToken s)) =
     (\<exists>c n u. s = c # 45 # n @ u \<and> is_space c \<and> n \<noteq> [] \<and> list_all is_letter n
        \<and> (t = u \<or> (\<exists>v. u = 61 # v @ t \<and> list_all is_nonspace v)))"
  (is "?L = ?R")
proof
  assume ?L
  then obtain s1 s2 s3 where 1: "s1 \<in> set (rests (Class is_space) s)"
    and 2: "s2 \<in> set (rests (Class (is_char 45)) s1)"
    and 3: "s3 \<in> set (rests (Plus (Class is_letter)) s2)"
    and 4: "t \<in> set (rests (Opt (Seq (Class (is_char 61)) (Star (Class is_nonspace)))) s3)"
    unfolding flagToken_def in_rests_Seq by blast
  from 1 obtain c where c: "s = c # s1" "is_space c" unfolding in_rests_Class by blast
  from 2 have s1: "s1 = 45 # s2" unfolding in_rests_Class is_char_def by blast
  from 3 obtain n where n: "s2 = n @ s3" "list_all is_letter n" "n \<noteq> []"
    unfolding in_rests_Plus by blast
  from 4 have "t = s3 \<or> (\<exists>v. s3 = 61 # v @ t \<and> list_all is_nonspace v)"
    unfolding in_rests_Opt in_rests_Seq in_rests_Class in_rests_Star_Class is_char_def by blast
  with c s1 n show ?R by blast
next
  assume ?R
  then obtain c n u where s: "s = c # 45 # n @ u" and c: "is_space c"
    and n: "n \<noteq> []" "list_all is_letter n"
    and u: "t = u \<or> (\<exists>v. u = 61 # v @ t \<and> list_all is_nonspace v)"
    by blast
  have 1: "45 # n @ u \<in> set (rests (Class is_space) s)"
    unfolding in_rests_Class s using c by simp
  have 2: "n @ u \<in> set (rests (Class (is_char 45)) (45 # n @ u))"
    unfolding in_rests_Class is_char_def by simp
  have 3: "u \<in> set (rests (Plus (Class is_letter)) (n @ u))"
    unfolding in_rests_Plus using n by blast
  have 4: "t \<in> set (rests (Opt (Seq (Class (is_char 61)) (Star (Class is_nonspace)))) u)"
  proof (cases "t = u")
    case True
    then show ?thesis unfolding in_rests_Opt by simp
  next
    case False
    with u obtain v where v: "u = 61 # v @ t" "list_all is_nonspace v" by blast
    have "t \<in> set (rests (Seq (Class (is_char 61)) (Star (Class is_nonspace))) u)"
      unfolding in_rests_Seq in_rests_Class in_rests_Star_Class is_char_def v(1)
      using v(2) by blast
    moreover have "length t < length u" unfolding v(1) by simp
    ultimately show ?thesis unfolding in_rests_Opt by blast
  qed
  from 1 2 3 4 show ?L
    unfolding flagToken_def in_rests_Seq by blast
qed

lemma star_ok_Cons:
  assumes "star_ok (c # f)"
  shows "is_space c \<and> (\<exists>b y. f = b @ y \<and> list_all is_dot b \<and> star_ok y)"
proof -
  from assms obtain s1 where 1: "s1 \<in> set (rests flagToken (c # f))" and 2: "star_ok s1"
    unfolding star_ok_def by (subst (asm) in_rests_Star) auto
  from 1 obtain n u where f: "f = 45 # n @ u" and c: "is_space c" and n: "list_all is_letter n"
    and u: "s1 = u \<or> (\<exists>v. u = 61 # v @ s1 \<and> list_all is_nonspace v)"
    unfolding flagToken_step by auto
  from u show ?thesis
  proof
    assume "s1 = u"
    with f n 2 have "f = (45 # n) @ u \<and> list_all is_dot (45 # n) \<and> star_ok u"
      by (simp add: dot_facts list_all_dot)
    with c show ?thesis by blast
  next
    assume "\<exists>v. u = 61 # v @ s1 \<and> list_all is_nonspace v"
    then obtain v where v: "u = 61 # v @ s1" "list_all is_nonspace v" by blast
    with f n 2 have "f = (45 # n @ 61 # v) @ s1 \<and> list_all is_dot (45 # n @ 61 # v) \<and> star_ok s1"
      by (simp add: dot_facts list_all_dot)
    with c show ?thesis by blast
  qed
qed

text \<open>
  When a line that begins with digits and a blank matches without the quantity prefix, it
  also matches with it: the prefix is never given up.
\<close>

lemma tail_ok_after_prefix:
  assumes d: "list_all is_digit ds" and c: "is_space c" and t: "tail_ok (ds @ c # x)"
  shows "tail_ok x"
proof -
  from t obtain p f where e: "ds @ c # x = p @ f" and p: "list_all is_dot p" and f: "star_ok f"
    unfolding tail_ok_iff by blast
  from e consider u where "ds = p @ u" "u @ c # x = f" | u where "ds @ u = p" "c # x = u @ f"
    unfolding append_eq_append_conv2 by blast
  then show ?thesis
  proof cases
    case 1
    show ?thesis
    proof (cases u)
      case Nil
      with 1 f have "star_ok (c # x)" by simp
      from star_ok_Cons [OF this] show ?thesis unfolding tail_ok_iff by blast
    next
      case (Cons k u')
      with 1 f have "star_ok (k # u' @ c # x)" by auto
      from star_ok_Cons [OF this] have "is_space k" by blast
      moreover from d 1 Cons have "is_digit k" by auto
      ultimately show ?thesis using space_not_digit by blast
    qed
  next
    case 2
    show ?thesis
    proof (cases u)
      case Nil
      with 2 f have "star_ok (c # x)" by simp
      from star_ok_Cons [OF this] show ?thesis unfolding tail_ok_iff by blast
    next
      case (Cons k u')
      with 2 have x: "x = u' @ f" by simp
      from p 2(1) Cons have "list_all is_dot u'" by auto
      with x f show ?thesis unfolding tail_ok_iff by blast
    qed
  qed
qed


subsection \<open>The captures of a parsed line\<close>

lemma find_SomeD: "find P xs = Some y \<Longrightarrow> y \<in> set xs \<and> P y"
  by (induction xs) (auto split: if_splits)

lemma find_first: "\<exists>y\<in>set xs. P y \<Longrightarrow> \<exists>y. find P (xs @ ys) = Some y \<and> y \<in> set xs \<and> P y"
proof -
  assume "\<exists>y\<in>set xs. P y"
  then obtain y where y: "find P xs = Some y"
    by (cases "find P xs") (auto simp: find_None_iff)
  with find_SomeD [OF y] show ?thesis by (simp add: find_app)
qed

lemma groups_tailPart: "groups tailPart = {2, 3}" "groups flagsPart = {3}"
  by (auto simp: tailPart_def flagsPart_def flagToken_def)

lemma tailPart_group2:
  assumes "y \<in> set (m tailPart x)"
  shows "\<exists>p. snd y 2 = Some p"
proof -
  from assms obtain z where z: "z \<in> set (m (Group 2 (LazyStar (Class is_dot))) x)"
    and y: "y \<in> set (m flagsPart z)"
    unfolding tailPart_def by (auto simp: set_each)
  from z obtain p where "snd z 2 = Some p" by auto
  moreover from m_captures [OF y, of 2] have "snd y 2 = snd z 2"
    by (simp add: groups_tailPart)
  ultimately show ?thesis by simp
qed

lemma regexp_exec_groups:
  assumes "regexp_exec regexp s = Some match"
  shows "match 1 = (if quantity_prefix s then Some (takeWhile is_digit s) else None)
       \<and> (\<exists>p. match 2 = Some p)"
proof -
  let ?c = "(\<lambda>_. None) :: captures"
  let ?Q = "\<lambda>x. \<exists>y\<in>set (m tailPart x). fst y = []"
  from quantityPrefix_states [of s] obtain T where
    T: "m quantityPrefix (s, ?c) = T @ [(s, ?c)]"
    and T1: "\<And>st1. st1 \<in> set T \<Longrightarrow> quantity_prefix s \<and> snd st1 1 = Some (takeWhile is_digit s)"
    and T2: "quantity_prefix s \<Longrightarrow>
          (tl (dropWhile is_digit s), ?c(1 := Some (takeWhile is_digit s))) \<in> set T"
    by blast
  have "m regexp (s, ?c) = each (T @ [(s, ?c)]) (\<lambda>st1. m tailPart st1)"
    unfolding regexp_tailPart by (simp only: m.simps(2) T)
  with assms obtain y where y: "find (\<lambda>st. fst st = []) (each (T @ [(s, ?c)]) (\<lambda>st1. m tailPart st1)) = Some y"
    and my: "match = snd y"
    by (auto simp: regexp_exec_def)
  from y obtain x where x: "find ?Q (T @ [(s, ?c)]) = Some x"
    and xy: "find (\<lambda>st. fst st = []) (m tailPart x) = Some y"
    unfolding find_each by (auto split: option.splits)
  from find_SomeD [OF xy] have yx: "y \<in> set (m tailPart x)" by simp
  from m_captures [OF yx, of 1] have c1: "snd y 1 = snd x 1"
    by (simp add: groups_tailPart)
  have "x \<in> set T \<or> (x = (s, ?c) \<and> (\<forall>t\<in>set T. \<not> ?Q t) \<and> ?Q (s, ?c))"
  proof (cases "find ?Q T")
    case None
    with x have "find ?Q [(s, ?c)] = Some x" by (simp add: find_app)
    then have "x = (s, ?c) \<and> ?Q (s, ?c)" by (simp split: if_splits)
    moreover from None have "\<forall>t\<in>set T. \<not> ?Q t" by (simp only: find_None_iff) blast
    ultimately show ?thesis by blast
  next
    case (Some t)
    with x have "x = t" by (simp add: find_app)
    with find_SomeD [OF Some] show ?thesis by blast
  qed
  then consider "x \<in> set T" | "x = (s, ?c)" "\<forall>t\<in>set T. \<not> ?Q t" "?Q (s, ?c)"
    by blast
  then have "snd x 1 = (if quantity_prefix s then Some (takeWhile is_digit s) else None)"
  proof cases
    case 1
    from T1 [OF 1] show ?thesis by simp
  next
    case 2
    have "\<not> quantity_prefix s"
    proof
      assume q: "quantity_prefix s"
      then obtain d x' where d: "dropWhile is_digit s = d # x'" "is_space d"
        and s: "s = takeWhile is_digit s @ d # x'"
        by (rule quantity_prefixE)
      from 2(3) have "tail_ok s" unfolding tail_succeeds by simp
      then have "tail_ok (takeWhile is_digit s @ d # x')" by (subst (asm) s)
      from tail_ok_after_prefix [OF digits_takeWhile d(2) this] have "tail_ok x'" .
      then have "?Q (x', ?c(1 := Some (takeWhile is_digit s)))"
        unfolding tail_succeeds by simp
      moreover from T2 [OF q] have "(x', ?c(1 := Some (takeWhile is_digit s))) \<in> set T"
        unfolding d(1) by simp
      ultimately show False using 2(2) by blast
    qed
    with 2(1) show ?thesis by simp
  qed
  with c1 my tailPart_group2 [OF yx] show ?thesis by simp
qed

end
